theory Spec2Isabelle
  imports Main "HOL-Library.Multiset"
begin

section \<open>Data model\<close>

text \<open>
  An opponent reading is the dict built by \<open>OpponentScanner.scan_visible_opponents\<close>
  (keys \<open>power\<close>, \<open>y_position\<close>, \<open>scroll_position\<close>, \<open>raw_text\<close>, \<open>available\<close>).
  The scanner always sets all five keys, so the defaults of the \<open>.get\<close> calls in
  \<open>battle_sequence.py\<close> are never taken and every field is total here.
\<close>

record opponent =
  opp_power :: int
  opp_y_position :: int
  opp_scroll_position :: int
  opp_raw_text :: string
  opp_available :: bool

subsection \<open>The external collaborators\<close>

text \<open>
  A positioned token of \<open>TextRecognizer.extract_text_with_positions\<close> and a match object of
  \<open>re.finditer\<close> over the block transcription (its \<open>group(0)\<close> and \<open>group(1)\<close>). Tesseract
  and the regular-expression engine are libraries: their outputs are inputs of the model.
\<close>

record token =
  tok_text :: string
  tok_x :: int
  tok_y :: int
  tok_w :: int
  tok_h :: int
  tok_confidence :: int

record rmatch =
  group0 :: string
  group1 :: string

text \<open>
  A captured frame: its shape and, for the pixel in row \<open>r\<close> and column \<open>c\<close>, the
  (hue, saturation, value) triple that \<open>cv2.cvtColor(..., COLOR_BGR2HSV)\<close> gives it.
\<close>

record frame =
  frame_height :: nat
  frame_width :: nat
  frame_hsv :: "nat \<Rightarrow> nat \<Rightarrow> nat \<times> nat \<times> nat"

datatype template =
    START_FIGHT | BATTLE_COMPLETE | RETURN_ARENA | FREE_REFRESH | PAY_REFRESH
  | EMPTY_ATOKENS | FREE_ATOKENS | BACK

text \<open>
  Everything the program reads off one call of \<open>window_capture.capture()\<close>: the frame, the
  top edge \<open>roi_y\<close> of the OCR region (\<open>get_ocr_region\<close> computes it in floating point; the
  argument is \<open>use_bottom_band\<close>), the OCR output on that region, and for a template and
  a threshold (in percent) the centre and size of the first scaled match, if any.
\<close>

record capture =
  cap_frame :: frame
  cap_roi_y :: "bool \<Rightarrow> int"
  cap_tokens :: "bool \<Rightarrow> token list"
  cap_matches :: "bool \<Rightarrow> rmatch list"
  cap_template :: "template \<Rightarrow> nat \<Rightarrow> ((int \<times> int) \<times> (int \<times> int)) option"

text \<open>
  The environment of a run: the n-th frame the capture provider returns, the window
  bounds (left, top_y, width, height), and the clock of \<open>wait_for_battle_complete\<close>: how
  many polls fit into its timeout when the wait starts after n captures.
\<close>

record env =
  frames :: "nat \<Rightarrow> capture"
  window_info :: "int \<times> int \<times> int \<times> int"
  poll_budget :: "nat \<Rightarrow> nat"

text \<open>
  The state of the external world as the program drives it through the shared
  \<open>window_capture\<close> object and the \<open>pyautogui\<close> input driver: how many frames have been
  captured so far, and the input actions issued so far (oldest first). A drag is one
  scroll gesture of \<open>scroll_list\<close>; a click carries its absolute screen coordinates.
\<close>

datatype direction = Down | Up

datatype action = Drag direction | Click int int | Press_escape

record world =
  captures :: nat
  actions :: "action list"

subsection \<open>Program state\<close>

text \<open>
  \<open>OpponentScanner\<close>: the four attributes of \<open>__init__\<close>, the attribute
  \<open>current_scroll_position\<close> that only \<open>BattleSequence.ensure_arena_tokens\<close> assigns (absent,
  \<open>None\<close>, until then), and the capture provider it shares with the battle sequence.
\<close>

record scanner =
  opponents :: "opponent list"
  scroll_count :: int
  max_scroll_reached :: int
  known_powers :: "int set"
  current_scroll_position :: "int option"
  window_capture :: world

text \<open>
  \<open>BattleSequence\<close>: the battle cycle state and the scanner it drives. The cursor and the
  battle counter start at 0 and are only ever incremented, so they are naturals.
\<close>

record battle =
  sorted_targets :: "opponent list"
  current_target_index :: nat
  battles_completed :: nat
  max_battles :: int
  list_valid :: bool
  scanner :: scanner

section \<open>Power parser (\<open>TextRecognizer.find_all_team_powers\<close>)\<close>

text \<open>\<open>s.replace(',', '').replace('.', '')\<close>\<close>

definition strip_separators :: "string \<Rightarrow> string" where
  "strip_separators s = filter (\<lambda>c. c \<noteq> CHR '','' \<and> c \<noteq> CHR ''.'') s"

definition is_digit :: "char \<Rightarrow> bool" where
  "is_digit c = (c \<in> set ''0123456789'')"

definition is_space :: "char \<Rightarrow> bool" where
  "is_space c = (c \<in> set [CHR '' '', CHR 0x09, CHR 0x0A, CHR 0x0B, CHR 0x0C, CHR 0x0D,
                            CHR 0x1C, CHR 0x1D, CHR 0x1E, CHR 0x1F])"

definition digits_value :: "string \<Rightarrow> int" where
  "digits_value s = foldl (\<lambda>acc c. 10 * acc + (int (of_char c) - 48)) 0 s"

text \<open>
  \<open>int(s)\<close> on the strings the parser passes to it: surrounding whitespace is ignored and
  a string of decimal digits is its value; anything else is the \<open>ValueError\<close> that the
  parser catches (\<open>None\<close>). Signs and underscores cannot occur behind the regular
  expressions that guard both calls; the limit that recent CPython versions put on the
  number of digits (4300) is not modelled.
\<close>

definition py_int :: "string \<Rightarrow> int option" where
  "py_int s =
     (let t = dropWhile is_space (rev (dropWhile is_space (rev s)))
      in if t \<noteq> [] \<and> list_all is_digit t then Some (digits_value t) else None)"

text \<open>\<open>needle in haystack\<close> on strings.\<close>

fun contains :: "string \<Rightarrow> string \<Rightarrow> bool" where
  "contains needle [] = (needle = [])"
| "contains needle (c # cs) =
     (take (length needle) (c # cs) = needle \<or> contains needle cs)"

text \<open>
  \<open>re.match(r'^\d{4,6}$', text)\<close>: four to six digits, and \<open>$\<close> also matches before a
  final newline.
\<close>

definition match_4_6_digits :: "string \<Rightarrow> bool" where
  "match_4_6_digits t =
     (let d = (if t \<noteq> [] \<and> last t = CHR 0x0A then butlast t else t)
      in 4 \<le> length d \<and> length d \<le> 6 \<and> list_all is_digit d)"

record team_power =
  tp_power :: int
  tp_y_position :: int
  tp_raw_text :: string

text \<open>The three accumulators of \<open>find_all_team_powers\<close>.\<close>

record parse_state =
  powers :: "team_power list"
  used_y_positions :: "int set"
  found_powers :: "int set"

text \<open>
  One iteration of \<open>for match in matches_found\<close>: parse the digits, drop values below
  1000, resolve the row position (exact digits in an unused token row, else an unused
  token holding "Power"/"ower", else the estimate from the order), record the reading.
\<close>

definition primary_step :: "token list \<Rightarrow> parse_state \<Rightarrow> rmatch \<Rightarrow> parse_state" where
  "primary_step results st m =
     (let power_str = strip_separators (group1 m) in
      case py_int power_str of
        None \<Rightarrow> st
      | Some power_value \<Rightarrow>
          if power_value < 1000 then st
          else
            let y_pos =
              (case find (\<lambda>r. contains power_str (strip_separators (tok_text r))
                              \<and> tok_y r \<notin> used_y_positions st) results of
                 Some r \<Rightarrow> tok_y r
               | None \<Rightarrow>
                  (case find (\<lambda>r. (contains ''Power'' (tok_text r) \<or> contains ''ower'' (tok_text r))
                                  \<and> tok_y r \<notin> used_y_positions st) results of
                     Some r \<Rightarrow> tok_y r
                   | None \<Rightarrow> int (length (powers st)) * 115 + 50))
            in \<lparr>powers = powers st @
                   [\<lparr>tp_power = power_value, tp_y_position = y_pos, tp_raw_text = group0 m\<rparr>],
                used_y_positions = insert y_pos (used_y_positions st),
                found_powers = insert power_value (found_powers st)\<rparr>)"

text \<open>
  One iteration of the fallback loop over the positioned tokens: a standalone number of
  4 to 6 digits in the range 1000..999999 that is not yet found and whose row is not
  within 20 pixels of a used row.
\<close>

definition fallback_step :: "parse_state \<Rightarrow> token \<Rightarrow> parse_state" where
  "fallback_step st r =
     (let text = strip_separators (tok_text r) in
      if match_4_6_digits text then
        (case py_int text of
           None \<Rightarrow> st
         | Some power_value \<Rightarrow>
             if 1000 \<le> power_value \<and> power_value \<le> 999999 \<and> power_value \<notin> found_powers st then
               let y_pos = tok_y r;
                   too_close = (\<exists>used_y \<in> used_y_positions st. \<bar>y_pos - used_y\<bar> < 20)
               in if \<not> too_close then
                    \<lparr>powers = powers st @
                       [\<lparr>tp_power = power_value, tp_y_position = y_pos,
                         tp_raw_text = ''[fallback] '' @ tok_text r\<rparr>],
                     used_y_positions = insert y_pos (used_y_positions st),
                     found_powers = insert power_value (found_powers st)\<rparr>
                  else st
             else st)
      else st)"

definition find_all_team_powers :: "token list \<Rightarrow> rmatch list \<Rightarrow> team_power list" where
  "find_all_team_powers results matches_found =
     (let st0 = \<lparr>powers = [], used_y_positions = {}, found_powers = {}\<rparr>;
          st1 = foldl (primary_step results) st0 matches_found;
          st2 = foldl fallback_step st1 results
      in powers st2)"

section \<open>Opponent scanner (\<open>OpponentScanner\<close>)\<close>

definition ARENA_MAX_SCROLL_ATTEMPTS :: int where
  "ARENA_MAX_SCROLL_ATTEMPTS = 6"

subsection \<open>\<open>check_battle_available\<close>\<close>

text \<open>
  The indices a numpy basic slice \<open>a[start:stop]\<close> selects on an axis of length \<open>n\<close>: a
  negative bound counts from the end, and both are clipped to the axis.
\<close>

definition np_slice :: "nat \<Rightarrow> int \<Rightarrow> int \<Rightarrow> nat list" where
  "np_slice n start stop =
     (let norm = (\<lambda>i. if i < 0 then max 0 (i + int n) else min i (int n))
      in [nat (norm start) ..< nat (norm stop)])"

text \<open>
  \<open>int(width * ARENA_BATTLE_BUTTON_X)\<close> with the constant 0.90: the double nearest to 0.9
  lies above it, by about 2.2e-17, so the rounded product never falls below an integer
  that nine tenths of the width reaches, and for every width of a screen (up to
  millions of pixels) the truncated product is the integer part of 9 * width / 10.
\<close>

definition battle_button_x :: "nat \<Rightarrow> int" where
  "battle_button_x width = (9 * int width) div 10"

definition sample_rows :: "frame \<Rightarrow> int \<Rightarrow> nat list" where
  "sample_rows f y_position =
     np_slice (frame_height f) (max 0 (y_position - 80))
       (min (int (frame_height f)) (y_position + 20))"

definition sample_cols :: "frame \<Rightarrow> nat list" where
  "sample_cols f =
     (let button_x = battle_button_x (frame_width f);
          sample_width = 40
      in np_slice (frame_width f) (max 0 (button_x - sample_width div 2))
           (min (int (frame_width f)) (button_x + sample_width div 2)))"

text \<open>\<open>sample_region.size\<close>: rows times columns (times the three channels).\<close>

definition sample_region_size :: "frame \<Rightarrow> int \<Rightarrow> nat" where
  "sample_region_size f y_position =
     length (sample_rows f y_position) * length (sample_cols f) * 3"

definition is_orange :: "nat \<times> nat \<times> nat \<Rightarrow> bool" where
  "is_orange px = (case px of (h, s, v) \<Rightarrow> 10 \<le> h \<and> h \<le> 35 \<and> s > 150)"

text \<open>
  The ratio test \<open>orange_pixel_count / total_pixels > 0.15\<close> is decided exactly: a
  sample of a frame holds far too few pixels for the rounding of the quotient or of
  the constant to change the comparison.
\<close>

definition check_battle_available :: "frame \<Rightarrow> int \<Rightarrow> bool" where
  "check_battle_available f y_position =
     (let rows = sample_rows f y_position;
          cols = sample_cols f
      in if sample_region_size f y_position = 0 then True
         else
           let orange_pixel_count =
                 length (filter is_orange (concat (map (\<lambda>r. map (frame_hsv f r) cols) rows)));
               total_pixels = length rows * length cols
           in if total_pixels > 0 then 100 * orange_pixel_count > 15 * total_pixels
              else False)"

subsection \<open>Scrolling and scanning\<close>

definition scanner_reset :: "scanner \<Rightarrow> scanner" where
  "scanner_reset s =
     s\<lparr>opponents := [], scroll_count := 0, max_scroll_reached := 0, known_powers := {}\<rparr>"

definition issue :: "action \<Rightarrow> world \<Rightarrow> world" where
  "issue a w = w\<lparr>actions := actions w @ [a]\<rparr>"

text \<open>\<open>window_capture.capture()\<close>: the next frame of the environment.\<close>

definition capture_frame :: "env \<Rightarrow> world \<Rightarrow> capture \<times> world" where
  "capture_frame e w = (frames e (captures w), w\<lparr>captures := Suc (captures w)\<rparr>)"

definition scroll_list :: "direction \<Rightarrow> scanner \<Rightarrow> scanner" where
  "scroll_list d s =
     (let s1 = s\<lparr>window_capture := issue (Drag d) (window_capture s)\<rparr>
      in case d of
           Down \<Rightarrow> s1\<lparr>scroll_count := scroll_count s1 + 1\<rparr>
         | Up \<Rightarrow> s1\<lparr>scroll_count := max 0 (scroll_count s1 - 1)\<rparr>)"

text \<open>
  \<open>p['y_position'] or (i * 100 + 50)\<close>: the parser never returns \<open>None\<close> for the position,
  but a position 0 is falsy as well and is replaced by the estimate.
\<close>

definition scan_visible_opponents ::
  "env \<Rightarrow> scanner \<Rightarrow> bool \<Rightarrow> opponent list \<times> scanner" where
  "scan_visible_opponents e s use_bottom_band =
     (let (cap, w) = capture_frame e (window_capture s);
          roi_y = cap_roi_y cap use_bottom_band;
          found = find_all_team_powers (cap_tokens cap use_bottom_band)
                    (cap_matches cap use_bottom_band);
          visible =
            map (\<lambda>(i, p).
                   let y_pos = (if tp_y_position p \<noteq> 0 then tp_y_position p
                                else int i * 100 + 50) + roi_y
                   in \<lparr>opp_power = tp_power p, opp_y_position = y_pos,
                       opp_scroll_position = scroll_count s,
                       opp_raw_text = tp_raw_text p,
                       opp_available = check_battle_available (cap_frame cap) y_pos\<rparr>)
                (enumerate 0 found)
      in (visible, s\<lparr>window_capture := w\<rparr>))"

subsection \<open>\<open>add_opponents_with_dedup\<close>\<close>

text \<open>The \<open>for opp in new_opponents\<close> loop, threading the scanner and \<open>added_count\<close>.\<close>

fun dedup_loop :: "opponent list \<Rightarrow> scanner \<Rightarrow> nat \<Rightarrow> scanner \<times> nat" where
  "dedup_loop [] s added_count = (s, added_count)"
| "dedup_loop (opp # rest) s added_count =
     (if opp_power opp \<notin> known_powers s then
        dedup_loop rest
          (s\<lparr>known_powers := insert (opp_power opp) (known_powers s),
             opponents := opponents s @ [opp]\<rparr>)
          (added_count + 1)
      else dedup_loop rest s added_count)"

definition add_opponents_with_dedup :: "scanner \<Rightarrow> opponent list \<Rightarrow> nat \<times> scanner" where
  "add_opponents_with_dedup s new_opponents =
     (let (s1, added_count) = dedup_loop new_opponents s 0;
          s2 = (if added_count > 0 then s1\<lparr>max_scroll_reached := scroll_count s1\<rparr> else s1)
      in (added_count, s2))"

subsection \<open>\<open>run_full_scan\<close>\<close>

text \<open>The local variables of the scroll-and-scan loop, with the scanner itself.\<close>

record scan_state =
  the_scanner :: scanner
  last_bottom_powers :: "int set"
  consecutive_empty_scans :: nat

datatype loop_exit = Continue scan_state | Break scan_state

text \<open>
  The body of \<open>while self.scroll_count < ARENA_MAX_SCROLL_ATTEMPTS\<close>: one scroll down and
  one bottom-band scan, then the empty-scan branch (\<open>continue\<close>), the end-of-list test
  (\<open>break\<close> after rolling the index back by one), the registration of new powers and,
  when none is new, the confirmation scroll (\<open>break\<close> after rolling back by two, or
  roll back by one and go on with the confirmation band as the last one).
\<close>

definition scan_step :: "env \<Rightarrow> scan_state \<Rightarrow> loop_exit" where
  "scan_step e st =
     (let s1 = scroll_list Down (the_scanner st);
          (visible, s2) = scan_visible_opponents e s1 True;
          current_powers = set (map opp_power visible)
      in if length visible = 0 then
           Continue (st\<lparr>the_scanner := s2,
                        consecutive_empty_scans :=
                          (if consecutive_empty_scans st + 1 \<ge> 2 then 0
                           else consecutive_empty_scans st + 1)\<rparr>)
         else if last_bottom_powers st \<noteq> {} \<and> current_powers = last_bottom_powers st then
           Break (st\<lparr>the_scanner := s2\<lparr>scroll_count := scroll_count s2 - 1\<rparr>,
                     consecutive_empty_scans := 0\<rparr>)
         else
           let (added, s3) = add_opponents_with_dedup s2 visible
           in if added = 0 then
                let s4 = scroll_list Down s3;
                    (visible2, s5) = scan_visible_opponents e s4 True;
                    confirm_powers = set (map opp_power visible2)
                in if confirm_powers = current_powers then
                     Break \<lparr>the_scanner = s5\<lparr>scroll_count := scroll_count s5 - 2\<rparr>,
                            last_bottom_powers = current_powers,
                            consecutive_empty_scans = 0\<rparr>
                   else
                     let s6 = s5\<lparr>scroll_count := scroll_count s5 - 1\<rparr>;
                         (added2, s7) = add_opponents_with_dedup s6 visible2
                     in Continue \<lparr>the_scanner = s7, last_bottom_powers = confirm_powers,
                                  consecutive_empty_scans = 0\<rparr>
              else
                Continue \<lparr>the_scanner = s3, last_bottom_powers = current_powers,
                          consecutive_empty_scans = 0\<rparr>)"

lemma dedup_loop_scroll_count:
  "scroll_count (fst (dedup_loop xs s n)) = scroll_count s"
  by (induction xs s n rule: dedup_loop.induct) simp_all

lemma add_opponents_with_dedup_scroll_count:
  "scroll_count (snd (add_opponents_with_dedup s xs)) = scroll_count s"
proof (cases "dedup_loop xs s 0")
  case (Pair s1 n)
  with dedup_loop_scroll_count [of xs s 0] show ?thesis
    by (simp add: add_opponents_with_dedup_def)
qed

lemma scan_visible_opponents_scroll_count:
  "scroll_count (snd (scan_visible_opponents e s b)) = scroll_count s"
  by (simp add: scan_visible_opponents_def capture_frame_def Let_def split: prod.splits)

lemma scroll_list_Down_scroll_count:
  "scroll_count (scroll_list Down s) = scroll_count s + 1"
  by (simp add: scroll_list_def Let_def)

text \<open>The five ways through the loop body, with the intermediate scanner states named.\<close>

lemma scan_step_cases [case_names Empty End_of_list New Confirmed Unconfirmed]:
  obtains
    (Empty) s2 where
      "scan_visible_opponents e (scroll_list Down (the_scanner st)) True = ([], s2)"
      "scan_step e st =
         Continue (st\<lparr>the_scanner := s2,
            consecutive_empty_scans :=
              (if consecutive_empty_scans st + 1 \<ge> 2 then 0 else consecutive_empty_scans st + 1)\<rparr>)"
  | (End_of_list) visible s2 where
      "scan_visible_opponents e (scroll_list Down (the_scanner st)) True = (visible, s2)"
      "visible \<noteq> []" "last_bottom_powers st \<noteq> {}"
      "set (map opp_power visible) = last_bottom_powers st"
      "scan_step e st =
         Break (st\<lparr>the_scanner := s2\<lparr>scroll_count := scroll_count s2 - 1\<rparr>,
                   consecutive_empty_scans := 0\<rparr>)"
  | (New) visible s2 added s3 where
      "scan_visible_opponents e (scroll_list Down (the_scanner st)) True = (visible, s2)"
      "visible \<noteq> []"
      "\<not> (last_bottom_powers st \<noteq> {} \<and> set (map opp_power visible) = last_bottom_powers st)"
      "add_opponents_with_dedup s2 visible = (added, s3)" "added \<noteq> 0"
      "scan_step e st =
         Continue \<lparr>the_scanner = s3, last_bottom_powers = set (map opp_power visible),
                   consecutive_empty_scans = 0\<rparr>"
  | (Confirmed) visible s2 s3 visible2 s5 where
      "scan_visible_opponents e (scroll_list Down (the_scanner st)) True = (visible, s2)"
      "visible \<noteq> []"
      "\<not> (last_bottom_powers st \<noteq> {} \<and> set (map opp_power visible) = last_bottom_powers st)"
      "add_opponents_with_dedup s2 visible = (0, s3)"
      "scan_visible_opponents e (scroll_list Down s3) True = (visible2, s5)"
      "set (map opp_power visible2) = set (map opp_power visible)"
      "scan_step e st =
         Break \<lparr>the_scanner = s5\<lparr>scroll_count := scroll_count s5 - 2\<rparr>,
                last_bottom_powers = set (map opp_power visible),
                consecutive_empty_scans = 0\<rparr>"
  | (Unconfirmed) visible s2 s3 visible2 s5 added2 s7 where
      "scan_visible_opponents e (scroll_list Down (the_scanner st)) True = (visible, s2)"
      "visible \<noteq> []"
      "\<not> (last_bottom_powers st \<noteq> {} \<and> set (map opp_power visible) = last_bottom_powers st)"
      "add_opponents_with_dedup s2 visible = (0, s3)"
      "scan_visible_opponents e (scroll_list Down s3) True = (visible2, s5)"
      "set (map opp_power visible2) \<noteq> set (map opp_power visible)"
      "add_opponents_with_dedup (s5\<lparr>scroll_count := scroll_count s5 - 1\<rparr>) visible2 = (added2, s7)"
      "scan_step e st =
         Continue \<lparr>the_scanner = s7, last_bottom_powers = set (map opp_power visible2),
                   consecutive_empty_scans = 0\<rparr>"
proof -
  obtain visible s2 where scan1:
    "scan_visible_opponents e (scroll_list Down (the_scanner st)) True = (visible, s2)"
    by (cases "scan_visible_opponents e (scroll_list Down (the_scanner st)) True")
  obtain added s3 where add1: "add_opponents_with_dedup s2 visible = (added, s3)"
    by (cases "add_opponents_with_dedup s2 visible")
  obtain visible2 s5 where scan2:
    "scan_visible_opponents e (scroll_list Down s3) True = (visible2, s5)"
    by (cases "scan_visible_opponents e (scroll_list Down s3) True")
  obtain added2 s7 where add2:
    "add_opponents_with_dedup (s5\<lparr>scroll_count := scroll_count s5 - 1\<rparr>) visible2 = (added2, s7)"
    by (cases "add_opponents_with_dedup (s5\<lparr>scroll_count := scroll_count s5 - 1\<rparr>) visible2")
  show thesis
  proof (cases "visible = []")
    case True
    with scan1 show thesis by (intro Empty [of s2]) (simp_all add: scan_step_def Let_def)
  next
    case nonempty: False
    show thesis
    proof (cases "last_bottom_powers st \<noteq> {} \<and> set (map opp_power visible) = last_bottom_powers st")
      case True
      with scan1 nonempty show thesis
        by (intro End_of_list [of visible s2]) (simp_all add: scan_step_def Let_def)
    next
      case differs: False
      show thesis
      proof (cases "added = 0")
        case False
        with scan1 nonempty differs add1 show thesis
          by (intro New [of visible s2 added s3]) (simp_all add: scan_step_def Let_def)
      next
        case True
        show thesis
        proof (cases "set (map opp_power visible2) = set (map opp_power visible)")
          case same: True
          from scan1 nonempty differs add1 True scan2 same show thesis
            by (intro Confirmed [of visible s2 s3 visible2 s5]) (auto simp: scan_step_def Let_def)
        next
          case other: False
          from scan1 nonempty differs add1 True scan2 other add2 show thesis
            by (intro Unconfirmed [of visible s2 s3 visible2 s5 added2 s7])
               (auto simp: scan_step_def Let_def)
        qed
      qed
    qed
  qed
qed

lemma scan_step_Continue_scroll_count:
  assumes "scan_step e st = Continue st'"
  shows "scroll_count (the_scanner st') = scroll_count (the_scanner st) + 1"
proof (cases rule: scan_step_cases [of e st])
  case (Empty s2)
  with assms scan_visible_opponents_scroll_count [of e "scroll_list Down (the_scanner st)" True]
  show ?thesis by (auto simp: scroll_list_Down_scroll_count)
next
  case (End_of_list visible s2)
  with assms show ?thesis by simp
next
  case (New visible s2 added s3)
  with assms scan_visible_opponents_scroll_count [of e "scroll_list Down (the_scanner st)" True]
    add_opponents_with_dedup_scroll_count [of s2 visible]
  show ?thesis by (auto simp: scroll_list_Down_scroll_count)
next
  case (Confirmed visible s2 s3 visible2 s5)
  with assms show ?thesis by simp
next
  case (Unconfirmed visible s2 s3 visible2 s5 added2 s7)
  with assms scan_visible_opponents_scroll_count [of e "scroll_list Down (the_scanner st)" True]
    add_opponents_with_dedup_scroll_count [of s2 visible]
    scan_visible_opponents_scroll_count [of e "scroll_list Down s3" True]
    add_opponents_with_dedup_scroll_count [of "s5\<lparr>scroll_count := scroll_count s5 - 1\<rparr>" visible2]
  show ?thesis by (auto simp: scroll_list_Down_scroll_count)
qed

text \<open>
  The loop itself. Every iteration that goes on has raised the tracked index by one, so
  the distance to the ceiling is a termination measure.
\<close>

function scan_loop :: "env \<Rightarrow> scan_state \<Rightarrow> scan_state" where
  "scan_loop e st =
     (if scroll_count (the_scanner st) < ARENA_MAX_SCROLL_ATTEMPTS then
        (case scan_step e st of
           Break st' \<Rightarrow> st'
         | Continue st' \<Rightarrow> scan_loop e st')
      else st)"
  by pat_completeness auto
termination
proof (relation "measure (\<lambda>(e, st). nat (ARENA_MAX_SCROLL_ATTEMPTS - scroll_count (the_scanner st)))")
  show "wf (measure (\<lambda>(e, st). nat (ARENA_MAX_SCROLL_ATTEMPTS - scroll_count (the_scanner st))))"
    by simp
next
  fix e st st'
  assume "scroll_count (the_scanner st) < ARENA_MAX_SCROLL_ATTEMPTS"
    and "scan_step e st = Continue st'"
  then show "((e, st'), (e, st))
        \<in> measure (\<lambda>(e, st). nat (ARENA_MAX_SCROLL_ATTEMPTS - scroll_count (the_scanner st)))"
    using scan_step_Continue_scroll_count [of e st st'] by simp
qed

declare scan_loop.simps [simp del]

text \<open>\<open>for _ in range(ARENA_MAX_SCROLL_ATTEMPTS): self.scroll_list(direction='up')\<close>\<close>

definition return_to_top :: "scanner \<Rightarrow> scanner" where
  "return_to_top s = ((scroll_list Up) ^^ nat ARENA_MAX_SCROLL_ATTEMPTS) s"

definition run_full_scan :: "env \<Rightarrow> scanner \<Rightarrow> opponent list \<times> scanner" where
  "run_full_scan e s =
     (let s0 = scanner_reset s;
          (visible, s1) = scan_visible_opponents e s0 False;
          (added, s2) = add_opponents_with_dedup s1 visible;
          st = scan_loop e \<lparr>the_scanner = s2, last_bottom_powers = {},
                            consecutive_empty_scans = 0\<rparr>;
          s3 = the_scanner st;
          s4 = s3\<lparr>scroll_count := max 0 (scroll_count s3)\<rparr>;
          s5 = s4\<lparr>max_scroll_reached := scroll_count s4\<rparr>;
          s6 = return_to_top s5;
          s7 = s6\<lparr>scroll_count := 0\<rparr>
      in (opponents s7, s7))"

subsection \<open>Single-shot re-verification\<close>

definition verify_opponent_at_position :: "env \<Rightarrow> scanner \<Rightarrow> int \<Rightarrow> bool \<times> scanner" where
  "verify_opponent_at_position e s target_power =
     (let (cap, w) = capture_frame e (window_capture s);
          found = find_all_team_powers (cap_tokens cap False) (cap_matches cap False)
      in (list_ex (\<lambda>p. tp_power p = target_power) found, s\<lparr>window_capture := w\<rparr>))"

text \<open>\<open>(p['y_position'] or 0) + roi_y\<close> of the first reading with the power.\<close>

definition find_opponent_y_position :: "env \<Rightarrow> scanner \<Rightarrow> int \<Rightarrow> int option \<times> scanner" where
  "find_opponent_y_position e s target_power =
     (let (cap, w) = capture_frame e (window_capture s);
          found = find_all_team_powers (cap_tokens cap False) (cap_matches cap False)
      in (map_option (\<lambda>p. tp_y_position p + cap_roi_y cap False)
            (find (\<lambda>p. tp_power p = target_power) found),
          s\<lparr>window_capture := w\<rparr>))"

definition get_current_visible_powers :: "env \<Rightarrow> scanner \<Rightarrow> int set \<times> scanner" where
  "get_current_visible_powers e s =
     (let (cap, w) = capture_frame e (window_capture s);
          found = find_all_team_powers (cap_tokens cap False) (cap_matches cap False)
      in (set (map tp_power found), s\<lparr>window_capture := w\<rparr>))"

section \<open>Template matcher (\<open>TemplateMatcher\<close>)\<close>

text \<open>Each of \<open>find_template\<close> and \<open>find_and_click\<close> captures one frame of its own.\<close>

definition find_template ::
  "env \<Rightarrow> world \<Rightarrow> template \<Rightarrow> nat \<Rightarrow> ((int \<times> int) \<times> (int \<times> int)) option \<times> world" where
  "find_template e w t threshold =
     (let (cap, w1) = capture_frame e w in (cap_template cap t threshold, w1))"

definition click_at_offset :: "env \<Rightarrow> world \<Rightarrow> int \<Rightarrow> int \<Rightarrow> int \<Rightarrow> int \<Rightarrow> world" where
  "click_at_offset e w base_x base_y offset_x offset_y =
     (case window_info e of
        (left, top_y, width, height) \<Rightarrow>
          issue (Click (left + base_x + offset_x) (top_y + base_y + offset_y)) w)"

definition find_and_click :: "env \<Rightarrow> world \<Rightarrow> template \<Rightarrow> nat \<Rightarrow> bool \<times> world" where
  "find_and_click e w t threshold =
     (let (cap, w1) = capture_frame e w in
      case cap_template cap t threshold of
        None \<Rightarrow> (False, w1)
      | Some ((x, y), match_size) \<Rightarrow>
          (case window_info e of
             (left, top_y, width, height) \<Rightarrow> (True, issue (Click (left + x) (top_y + y)) w1)))"

section \<open>Battle orchestrator (\<open>BattleSequence\<close>)\<close>

subsection \<open>Target scheduler (\<open>prepare_targets\<close>)\<close>

text \<open>
  Python's \<open>sorted(xs, key=k, reverse=r)\<close>: a stable sort; with \<open>reverse\<close> CPython reverses
  the list, sorts it stably and reverses the result, which keeps equal keys in their
  original order.
\<close>

definition py_sorted :: "('a \<Rightarrow> int) \<Rightarrow> bool \<Rightarrow> 'a list \<Rightarrow> 'a list" where
  "py_sorted key reverse xs =
     (if reverse then rev (sort_key key (rev xs)) else sort_key key xs)"

definition battle_reset :: "battle \<Rightarrow> battle" where
  "battle_reset b =
     b\<lparr>sorted_targets := [], current_target_index := 0, battles_completed := 0,
       list_valid := True\<rparr>"

text \<open>
  \<open>max_power\<close> is \<open>None\<close> (the default) or an integer; \<open>if max_power and max_power > 0\<close>
  skips the filter for \<open>None\<close>, for 0 and for negative values.
\<close>

definition power_limit :: "int option \<Rightarrow> opponent \<Rightarrow> bool" where
  "power_limit max_power opp =
     (case max_power of
        None \<Rightarrow> True
      | Some m \<Rightarrow> if m \<noteq> 0 \<and> m > 0 then opp_power opp \<le> m else True)"

definition prepare_targets ::
  "battle \<Rightarrow> opponent list \<Rightarrow> bool \<Rightarrow> int option \<Rightarrow> opponent list \<times> battle" where
  "prepare_targets b opps weakest_first max_power =
     (let b1 = battle_reset b;
          available_opponents = filter opp_available opps;
          filtered = filter (power_limit max_power) available_opponents;
          targets = py_sorted opp_power (\<not> weakest_first) filtered
      in (targets, b1\<lparr>sorted_targets := targets\<rparr>))"

subsection \<open>The steps of one attack\<close>

definition navigate_to_target :: "env \<Rightarrow> battle \<Rightarrow> opponent \<Rightarrow> bool \<times> battle" where
  "navigate_to_target e b target =
     (let target_power = opp_power target;
          target_scroll = opp_scroll_position target;
          s0 = scanner b;
          current_scroll = scroll_count s0;
          s1 = (if target_scroll \<noteq> current_scroll then
                  if target_scroll < current_scroll then
                    ((scroll_list Up) ^^ nat (current_scroll - target_scroll)) s0
                  else ((scroll_list Down) ^^ nat (target_scroll - current_scroll)) s0
                else s0);
          (visible1, s2) = verify_opponent_at_position e s1 target_power
      in if visible1 then (True, b\<lparr>scanner := s2\<rparr>)
         else
           let s3 = scroll_list Down s2;
               (visible2, s4) = verify_opponent_at_position e s3 target_power
           in if visible2 then (True, b\<lparr>scanner := s4\<rparr>)
              else
                let s5 = scroll_list Up (scroll_list Up s4);
                    (visible3, s6) = verify_opponent_at_position e s5 target_power
                in if visible3 then (True, b\<lparr>scanner := s6\<rparr>)
                   else (False, b\<lparr>scanner := scroll_list Down s6\<rparr>))"

definition BUTTON_Y_OFFSET :: int where
  "BUTTON_Y_OFFSET = - 50"

definition click_battle_button :: "env \<Rightarrow> battle \<Rightarrow> int \<Rightarrow> int option \<Rightarrow> bool \<times> battle" where
  "click_battle_button e b target_power stored_y_position =
     (let (y_opt, s1) =
            (case stored_y_position of
               Some y \<Rightarrow> (Some y, scanner b)
             | None \<Rightarrow> find_opponent_y_position e (scanner b) target_power)
      in case y_opt of
           None \<Rightarrow> (False, b\<lparr>scanner := s1\<rparr>)
         | Some y_pos \<Rightarrow>
             (case window_info e of
                (left, top_y, width, height) \<Rightarrow>
                  let (cap, w) = capture_frame e (window_capture s1);
                      s2 = s1\<lparr>window_capture := w\<rparr>
                  in if \<not> check_battle_available (cap_frame cap) y_pos then
                       (False, b\<lparr>scanner := s2\<rparr>)
                     else
                       let button_x = left + battle_button_x (frame_width (cap_frame cap));
                           button_y = top_y + y_pos + BUTTON_Y_OFFSET
                       in (True,
                           b\<lparr>scanner := s2\<lparr>window_capture := issue (Click button_x button_y) w\<rparr>\<rparr>)))"

definition click_start_fight :: "env \<Rightarrow> battle \<Rightarrow> bool \<times> battle" where
  "click_start_fight e b =
     (let (success, w) = find_and_click e (window_capture (scanner b)) START_FIGHT 80
      in (success, b\<lparr>scanner := (scanner b)\<lparr>window_capture := w\<rparr>\<rparr>))"

text \<open>
  The token check. On a free refill the source assigns \<open>self.scanner.current_scroll_position\<close>.
\<close>

definition ensure_arena_tokens :: "env \<Rightarrow> battle \<Rightarrow> string \<times> battle" where
  "ensure_arena_tokens e b =
     (let s = scanner b;
          (found, w1) = find_template e (window_capture s) EMPTY_ATOKENS 98
      in case found of
           None \<Rightarrow> (''ok'', b\<lparr>scanner := s\<lparr>window_capture := w1\<rparr>\<rparr>)
         | Some (location, match_size) \<Rightarrow>
             let plus_offset_x = - (fst match_size div 2) - 20;
                 w2 = click_at_offset e w1 (fst location) (snd location) plus_offset_x 0;
                 (found_free, w3) = find_template e w2 FREE_ATOKENS 80
             in case found_free of
                  Some m \<Rightarrow>
                    let (clicked, w4) = find_and_click e w3 FREE_ATOKENS 80
                    in (''refilled'',
                        b\<lparr>scanner := s\<lparr>window_capture := w4, current_scroll_position := Some 0\<rparr>\<rparr>)
                | None \<Rightarrow>
                    (''no_tokens'', b\<lparr>scanner := s\<lparr>window_capture := issue Press_escape w3\<rparr>\<rparr>))"

text \<open>
  \<open>wait_for_battle_complete\<close> polls while the clock is inside the timeout; the number of
  polls that fit is the environment's.
\<close>

fun poll_battle_complete :: "env \<Rightarrow> nat \<Rightarrow> world \<Rightarrow> bool \<times> world" where
  "poll_battle_complete e 0 w = (False, w)"
| "poll_battle_complete e (Suc n) w =
     (let (success, w1) = find_and_click e w BATTLE_COMPLETE 80
      in if success then (True, w1) else poll_battle_complete e n w1)"

definition wait_for_battle_complete :: "env \<Rightarrow> battle \<Rightarrow> bool \<times> battle" where
  "wait_for_battle_complete e b =
     (let w = window_capture (scanner b);
          (found, w1) = poll_battle_complete e (poll_budget e (captures w)) w
      in (found, b\<lparr>scanner := (scanner b)\<lparr>window_capture := w1\<rparr>\<rparr>))"

text \<open>\<open>for attempt in range(max_attempts)\<close> with \<open>max_attempts = 5\<close>.\<close>

fun return_arena_attempts :: "env \<Rightarrow> nat \<Rightarrow> world \<Rightarrow> bool \<times> world" where
  "return_arena_attempts e 0 w = (False, w)"
| "return_arena_attempts e (Suc n) w =
     (let (success, w1) = find_and_click e w RETURN_ARENA 80
      in if success then (True, w1) else return_arena_attempts e n w1)"

definition click_return_arena :: "env \<Rightarrow> battle \<Rightarrow> bool \<times> battle" where
  "click_return_arena e b =
     (let (success, w) = return_arena_attempts e 5 (window_capture (scanner b))
      in (success, b\<lparr>scanner := (scanner b)\<lparr>window_capture := w\<rparr>\<rparr>))"

subsection \<open>\<open>verify_list_unchanged\<close>\<close>

text \<open>
  The scanner is handed to the constructor, and \<open>verify_list_unchanged\<close> only calls its
  method \<open>get_current_visible_powers\<close>; the check is first written over any such method
  and then tied to the scanner of this repository.
\<close>

definition verify_list_unchanged_with ::
  "(scanner \<Rightarrow> int set \<times> scanner) \<Rightarrow> battle \<Rightarrow> int set \<Rightarrow> bool \<times> battle" where
  "verify_list_unchanged_with visible_powers b expected_powers_at_position =
     (let (current_powers, s1) = visible_powers (scanner b);
          overlap = current_powers \<inter> expected_powers_at_position;
          b1 = b\<lparr>scanner := s1\<rparr>
      in if overlap \<noteq> {} then (True, b1) else (False, b1\<lparr>list_valid := False\<rparr>))"

definition verify_list_unchanged :: "env \<Rightarrow> battle \<Rightarrow> int set \<Rightarrow> bool \<times> battle" where
  "verify_list_unchanged e b expected_powers_at_position =
     verify_list_unchanged_with (get_current_visible_powers e) b expected_powers_at_position"

subsection \<open>\<open>attack_next_target\<close>\<close>

definition attack_next_target :: "env \<Rightarrow> battle \<Rightarrow> string \<times> battle" where
  "attack_next_target e b =
     (if \<not> list_valid b then (''list_invalid'', b)
      else if current_target_index b \<ge> length (sorted_targets b) then (''no_more'', b)
      else if int (battles_completed b) \<ge> max_battles b then (''max_reached'', b)
      else
        let (token_status, b1) = ensure_arena_tokens e b
        in if token_status = ''no_tokens'' then (''no_tokens'', b1)
           else
             let target = sorted_targets b1 ! current_target_index b1;
                 target_power = opp_power target;
                 target_y_pos = opp_y_position target;
                 (navigated, b2) = navigate_to_target e b1 target
             in if \<not> navigated then
                  (''skip'', b2\<lparr>current_target_index := current_target_index b2 + 1\<rparr>)
                else
                  let (clicked, b3) = click_battle_button e b2 target_power (Some target_y_pos)
                  in if \<not> clicked then
                       (''skip'', b3\<lparr>current_target_index := current_target_index b3 + 1\<rparr>)
                     else
                       let (started, b4) = click_start_fight e b3
                       in if \<not> started then
                            (''skip'', b4\<lparr>current_target_index := current_target_index b4 + 1\<rparr>)
                          else
                            let (completed, b5) = wait_for_battle_complete e b4
                            in if \<not> completed then
                                 (''skip'',
                                  b5\<lparr>current_target_index := current_target_index b5 + 1\<rparr>)
                               else
                                 let (returned, b6) = click_return_arena e b5
                                 in if \<not> returned then
                                      (''skip'',
                                       b6\<lparr>current_target_index := current_target_index b6 + 1\<rparr>)
                                    else
                                      (''success'',
                                       b6\<lparr>scanner := (scanner b6)\<lparr>scroll_count := 0\<rparr>,
                                          current_target_index := current_target_index b6 + 1,
                                          battles_completed := battles_completed b6 + 1\<rparr>))"

section \<open>Initial states, worked inputs and auxiliary notions\<close>

text \<open>The states that \<open>OpponentScanner.__init__\<close> and \<open>BattleSequence.__init__\<close> build.\<close>

definition world_init :: world where
  "world_init = \<lparr>captures = 0, actions = []\<rparr>"

definition scanner_init :: scanner where
  "scanner_init =
     \<lparr>opponents = [], scroll_count = 0, max_scroll_reached = 0, known_powers = {},
      current_scroll_position = None, window_capture = world_init\<rparr>"

definition ARENA_MAX_BATTLES :: int where
  "ARENA_MAX_BATTLES = 20"

definition battle_init :: battle where
  "battle_init =
     \<lparr>sorted_targets = [], current_target_index = 0, battles_completed = 0,
      max_battles = ARENA_MAX_BATTLES, list_valid = True, scanner = scanner_init\<rparr>"

text \<open>A reading with a given power and availability, for concrete schedules.\<close>

definition reading :: "int \<Rightarrow> bool \<Rightarrow> opponent" where
  "reading p a = \<lparr>opp_power = p, opp_y_position = 300, opp_scroll_position = 0,
                  opp_raw_text = ''Power: '', opp_available = a\<rparr>"

text \<open>
  Concrete frames, captures and environments for the worked examples: a 3 x 4 frame
  of gray pixels and one of orange pixels, a capture whose OCR block reads
  "Power: <digits>" once per given digit string, and an environment over a feed of
  captures.
\<close>

definition frame_gray :: frame where
  "frame_gray = \<lparr>frame_height = 4, frame_width = 3, frame_hsv = (\<lambda>r c. (0, 0, 128))\<rparr>"

definition frame_orange :: frame where
  "frame_orange = \<lparr>frame_height = 4, frame_width = 3, frame_hsv = (\<lambda>r c. (20, 200, 200))\<rparr>"

definition power_match :: "string \<Rightarrow> rmatch" where
  "power_match digits = \<lparr>group0 = ''Power: '' @ digits, group1 = digits\<rparr>"

definition capture_of ::
  "frame \<Rightarrow> string list \<Rightarrow> (template \<Rightarrow> nat \<Rightarrow> ((int \<times> int) \<times> (int \<times> int)) option) \<Rightarrow> capture" where
  "capture_of f digit_strings found =
     \<lparr>cap_frame = f, cap_roi_y = (\<lambda>use_bottom_band. if use_bottom_band then 3 else 1),
      cap_tokens = (\<lambda>use_bottom_band. []),
      cap_matches = (\<lambda>use_bottom_band. map power_match digit_strings),
      cap_template = found\<rparr>"

definition env_of :: "(nat \<Rightarrow> capture) \<Rightarrow> env" where
  "env_of feed = \<lparr>frames = feed, window_info = (0, 0, 3, 4), poll_budget = (\<lambda>n. 2)\<rparr>"

definition env_refill :: env where
  "env_refill =
     env_of (\<lambda>n. capture_of frame_orange []
       (\<lambda>t threshold. if t = EMPTY_ATOKENS then Some ((200, 20), (60, 20))
                       else if t = FREE_ATOKENS then Some ((150, 100), (80, 30))
                       else None))"

definition env_blank :: env where
  "env_blank = env_of (\<lambda>n. capture_of frame_orange [] (\<lambda>t threshold. None))"

definition battle_mid_cycle :: battle where
  "battle_mid_cycle = battle_init\<lparr>sorted_targets := [reading 3000 True, reading 5000 True],
      current_target_index := 2, battles_completed := 2, list_valid := False\<rparr>"

definition battle_scrolled :: battle where
  "battle_scrolled = battle_init\<lparr>scanner := scanner_init\<lparr>scroll_count := 3\<rparr>\<rparr>"

definition battle_one_target :: battle where
  "battle_one_target = battle_init\<lparr>sorted_targets := [reading 3000 True]\<rparr>"

text \<open>Two battle states that agree on everything but the scanner.\<close>

definition same_cycle :: "battle \<Rightarrow> battle \<Rightarrow> bool" where
  "same_cycle b b' =
     (sorted_targets b' = sorted_targets b \<and> current_target_index b' = current_target_index b
      \<and> battles_completed b' = battles_completed b \<and> list_valid b' = list_valid b
      \<and> max_battles b' = max_battles b)"

text \<open>
  A feed whose bottom band repeats: the full scan reads 5,000 and 3,000, the first
  scroll step 8,000, and every later one 9,000; and two loop states on that feed.
\<close>

definition env_repeat :: env where
  "env_repeat =
     env_of (\<lambda>n. capture_of frame_orange
                (if n = 0 then [''5,000'', ''3,000''] else if n = 1 then [''8,000''] else [''9,000''])
                (\<lambda>t threshold. None))"

definition state_after_repeat :: scan_state where
  "state_after_repeat =
     \<lparr>the_scanner = scanner_init\<lparr>scroll_count := 2, known_powers := {5000, 3000, 8000, 9000},
          window_capture := \<lparr>captures = 3, actions = [Drag Down, Drag Down]\<rparr>\<rparr>,
      last_bottom_powers = {9000}, consecutive_empty_scans = 0\<rparr>"

definition state_all_known :: scan_state where
  "state_all_known =
     \<lparr>the_scanner = scanner_init\<lparr>scroll_count := 1, known_powers := {5000, 3000, 8000, 9000},
          window_capture := \<lparr>captures = 2, actions = [Drag Down]\<rparr>\<rparr>,
      last_bottom_powers = {8000}, consecutive_empty_scans = 0\<rparr>"

text \<open>
  The state a loop exit carries, the loop state at the first iteration of
  \<open>run_full_scan\<close>, the registry invariant (one reading per power, and the known-powers
  set is exactly the powers of the registry), and the power set that the bottom band of
  the n-th captured frame holds.
\<close>

definition exit_state :: "loop_exit \<Rightarrow> scan_state" where
  "exit_state x = (case x of Continue st \<Rightarrow> st | Break st \<Rightarrow> st)"

definition loop_start :: "env \<Rightarrow> scanner \<Rightarrow> scan_state" where
  "loop_start e s =
     (let top = scan_visible_opponents e (scanner_reset s) False
      in \<lparr>the_scanner = snd (add_opponents_with_dedup (snd top) (fst top)),
          last_bottom_powers = {}, consecutive_empty_scans = 0\<rparr>)"

definition registry_ok :: "scanner \<Rightarrow> bool" where
  "registry_ok s =
     (distinct (map opp_power (opponents s)) \<and> set (map opp_power (opponents s)) = known_powers s)"

definition band_powers :: "env \<Rightarrow> nat \<Rightarrow> int set" where
  "band_powers e n =
     set (map tp_power (find_all_team_powers (cap_tokens (frames e n) True)
                          (cap_matches (frames e n) True)))"

text \<open>
  The specification's scheduler: keep the readings with \<open>available == true\<close> and, when
  \<open>maxPower > 0\<close>, with \<open>power <= maxPower\<close>; stable-sort by power, ascending if
  \<open>weakestFirst\<close>, else descending.
\<close>

definition spec_keeps :: "int \<Rightarrow> opponent \<Rightarrow> bool" where
  "spec_keeps max_power opp = (opp_available opp \<and> (max_power > 0 \<longrightarrow> opp_power opp \<le> max_power))"

definition spec_schedule :: "opponent list \<Rightarrow> bool \<Rightarrow> int \<Rightarrow> opponent list" where
  "spec_schedule registry weakest_first max_power =
     (let kept = filter (spec_keeps max_power) registry
      in if weakest_first then sort_key opp_power kept
         else sort_key (\<lambda>opp. - opp_power opp) kept)"

section \<open>Scheduling correctness\<close>

lemma py_sorted_mset: "mset (py_sorted key r xs) = mset xs"
  by (simp add: py_sorted_def)

lemma py_sorted_stable:
  "filter (\<lambda>x. key x = k) (py_sorted key r xs) = filter (\<lambda>x. key x = k) xs"
proof (cases r)
  case True
  have "filter (\<lambda>x. key x = k) (rev (sort_key key (rev xs)))
        = rev (filter (\<lambda>x. key x = k) (sort_key key (rev xs)))"
    by (simp add: rev_filter)
  also have "\<dots> = rev (filter (\<lambda>x. key x = k) (rev xs))"
    by (simp only: sort_key_stable)
  also have "\<dots> = filter (\<lambda>x. key x = k) xs"
    by (simp add: rev_filter)
  finally show ?thesis using True by (simp add: py_sorted_def)
next
  case False
  then show ?thesis by (simp add: py_sorted_def sort_key_stable)
qed

lemma py_sorted_ascending: "sorted (map key (py_sorted key False xs))"
  by (simp add: py_sorted_def)

lemma py_sorted_descending: "sorted (rev (map key (py_sorted key True xs)))"
  by (simp add: py_sorted_def rev_map)

lemma sorted_map_uminus_rev:
  fixes ks :: "int list"
  shows "sorted ks \<Longrightarrow> sorted (map uminus (rev ks))"
  by (induction ks) (auto simp: sorted_append)

lemma py_sorted_reverse_eq:
  "py_sorted key True xs = sort_key (\<lambda>x. - key x) xs"
proof (rule properties_for_sort_key [symmetric])
  show "mset (py_sorted key True xs) = mset xs" by (rule py_sorted_mset)
next
  fix k
  have "(\<lambda>x. - key k = - key x) = (\<lambda>x. key x = key k)" by auto
  then show "filter (\<lambda>x. - key k = - key x) (py_sorted key True xs)
        = filter (\<lambda>x. - key k = - key x) xs"
    by (simp add: py_sorted_stable)
next
  have "map (\<lambda>x. - key x) (py_sorted key True xs) = map uminus (rev (map key (sort_key key (rev xs))))"
    by (simp add: py_sorted_def rev_map)
  moreover have "sorted (map uminus (rev (map key (sort_key key (rev xs)))))"
    by (rule sorted_map_uminus_rev) simp
  ultimately show "sorted (map (\<lambda>x. - key x) (py_sorted key True xs))" by simp
qed

lemma power_limit_Some: "(opp_available opp \<and> power_limit (Some m) opp) = spec_keeps m opp"
  by (auto simp: power_limit_def spec_keeps_def)

lemma prepare_targets_fst:
  "fst (prepare_targets b opps weakest_first mp)
     = py_sorted opp_power (\<not> weakest_first) (filter (\<lambda>opp. opp_available opp \<and> power_limit mp opp) opps)"
  by (simp add: prepare_targets_def Let_def conj_commute)

lemma prepare_targets_eq_spec:
  "fst (prepare_targets b opps weakest_first (Some m)) = spec_schedule opps weakest_first m"
  by (cases weakest_first) (simp_all add: prepare_targets_fst power_limit_Some spec_schedule_def
      py_sorted_reverse_eq, simp add: py_sorted_def)

lemma sort_three: "mset ps = {#5000, 3000, 8000::int#} \<Longrightarrow> sort ps = [3000, 5000, 8000]"
  by (rule properties_for_sort) simp_all

lemma map_sort_key: "map f (sort_key f xs) = sort (map f xs)"
  by (rule properties_for_sort [symmetric]) simp_all


lemma prepare_targets_powers_ascending:
  "map opp_power (fst (prepare_targets b opps True (Some m)))
     = sort (filter (\<lambda>p. m > 0 \<longrightarrow> p \<le> m) (map opp_power (filter opp_available opps)))"
proof -
  have "filter (\<lambda>opp. opp_available opp \<and> power_limit (Some m) opp) opps
        = filter (\<lambda>opp. m > 0 \<longrightarrow> opp_power opp \<le> m) (filter opp_available opps)"
    by (auto simp: power_limit_def intro: filter_cong)
  then show ?thesis
    by (simp add: prepare_targets_fst py_sorted_def map_sort_key filter_map comp_def)
qed

lemma schedule_example:
  assumes "mset (map opp_power opps) = {#5000, 3000, 8000#}"
    and "\<forall>opp \<in> set opps. opp_available opp"
  shows "map opp_power (fst (prepare_targets b opps True (Some 0))) = [3000, 5000, 8000]"
    and "map opp_power (fst (prepare_targets b opps True (Some 4000))) = [3000]"
proof -
  from assms(2) have all: "filter opp_available opps = opps" by simp
  show "map opp_power (fst (prepare_targets b opps True (Some 0))) = [3000, 5000, 8000]"
    using assms(1) by (simp add: prepare_targets_powers_ascending all sort_three)
  have "mset (filter (\<lambda>p. p \<le> 4000) (map opp_power opps)) = {#3000#}"
    using assms(1) by simp
  then have "sort (filter (\<lambda>p. p \<le> 4000) (map opp_power opps)) = [3000]"
    by (intro properties_for_sort) simp_all
  then show "map opp_power (fst (prepare_targets b opps True (Some 4000))) = [3000]"
    by (simp add: prepare_targets_powers_ascending all)
qed

text \<open>
  Claim C1. For every registry, \<open>prepare_targets\<close> returns exactly the schedule of the
  specification: the available readings (with power at most \<open>max_power\<close> when
  \<open>max_power > 0\<close>), each as often as in the registry, readings of equal power in
  registry order, ascending by power when \<open>weakest_first\<close> and descending otherwise.
  No unavailable reading is ever in a target list, whatever the power filter. For a
  registry with the powers 5000, 3000, 8000, all available, weakest first gives
  3000, 5000, 8000 with \<open>max_power = 0\<close> and 3000 alone with \<open>max_power = 4000\<close>.
\<close>

theorem prepare_targets_schedule:
  "fst (prepare_targets b opps weakest_first (Some m)) = spec_schedule opps weakest_first m
   \<and> mset (fst (prepare_targets b opps weakest_first (Some m))) = mset (filter (spec_keeps m) opps)
   \<and> (\<forall>k. filter (\<lambda>opp. opp_power opp = k) (fst (prepare_targets b opps weakest_first (Some m)))
            = filter (\<lambda>opp. opp_power opp = k) (filter (spec_keeps m) opps))
   \<and> (if weakest_first then sorted (map opp_power (fst (prepare_targets b opps weakest_first (Some m))))
       else sorted (rev (map opp_power (fst (prepare_targets b opps weakest_first (Some m))))))
   \<and> (\<forall>opp \<in> set (fst (prepare_targets b opps weakest_first max_power)). opp_available opp)
   \<and> (mset (map opp_power opps) = {#5000, 3000, 8000#} \<and> (\<forall>opp \<in> set opps. opp_available opp)
        \<longrightarrow> map opp_power (fst (prepare_targets b opps True (Some 0))) = [3000, 5000, 8000]
          \<and> map opp_power (fst (prepare_targets b opps True (Some 4000))) = [3000])"
proof -
  let ?ts = "fst (prepare_targets b opps weakest_first (Some m))"
  have kept: "filter (\<lambda>opp. opp_available opp \<and> power_limit (Some m) opp) opps
                = filter (spec_keeps m) opps"
    by (simp add: power_limit_Some)
  have 1: "?ts = spec_schedule opps weakest_first m" by (rule prepare_targets_eq_spec)
  have 2: "mset ?ts = mset (filter (spec_keeps m) opps)"
    by (simp add: prepare_targets_fst py_sorted_mset kept)
  have 3: "\<forall>k. filter (\<lambda>opp. opp_power opp = k) ?ts
               = filter (\<lambda>opp. opp_power opp = k) (filter (spec_keeps m) opps)"
    by (simp only: prepare_targets_fst py_sorted_stable kept) simp
  have 4: "if weakest_first then sorted (map opp_power ?ts) else sorted (rev (map opp_power ?ts))"
    using py_sorted_ascending [of opp_power] py_sorted_descending [of opp_power]
    by (cases weakest_first) (simp_all add: prepare_targets_fst)
  have 5: "\<forall>opp \<in> set (fst (prepare_targets b opps weakest_first max_power)). opp_available opp"
    using py_sorted_mset [of opp_power "\<not> weakest_first"
        "filter (\<lambda>opp. opp_available opp \<and> power_limit max_power opp) opps", THEN mset_eq_setD]
    by (simp add: prepare_targets_fst)
  have 6: "mset (map opp_power opps) = {#5000, 3000, 8000#} \<and> (\<forall>opp \<in> set opps. opp_available opp)
        \<longrightarrow> map opp_power (fst (prepare_targets b opps True (Some 0))) = [3000, 5000, 8000]
          \<and> map opp_power (fst (prepare_targets b opps True (Some 4000))) = [3000]"
    using schedule_example [of opps b] by blast
  from 1 2 3 4 5 6 show ?thesis by (intro conjI)
qed

theorem prepare_targets_schedule_witness:
  "map opp_power (fst (prepare_targets battle_init
      [reading 5000 True, reading 3000 True, reading 8000 True] True (Some 0))) = [3000, 5000, 8000]
   \<and> map opp_power (fst (prepare_targets battle_init
      [reading 5000 True, reading 3000 True, reading 8000 True] True (Some 4000))) = [3000]
   \<and> fst (prepare_targets battle_init
      [reading 5000 True, reading 3000 False, reading 8000 True] False (Some 6000)) = [reading 5000 True]"
proof -
  have a: "mset (map opp_power [reading 5000 True, reading 3000 True, reading 8000 True])
             = {#5000, 3000, 8000#}
           \<and> (\<forall>opp \<in> set [reading 5000 True, reading 3000 True, reading 8000 True]. opp_available opp)"
    by (simp add: reading_def)
  have b: "spec_schedule [reading 5000 True, reading 3000 False, reading 8000 True] False 6000
             = [reading 5000 True]"
    by (simp add: spec_schedule_def spec_keeps_def reading_def)
  from a prepare_targets_schedule
      [of battle_init "[reading 5000 True, reading 3000 True, reading 8000 True]" True 0 "Some 0"]
  have c: "map opp_power (fst (prepare_targets battle_init
      [reading 5000 True, reading 3000 True, reading 8000 True] True (Some 0))) = [3000, 5000, 8000]
   \<and> map opp_power (fst (prepare_targets battle_init
      [reading 5000 True, reading 3000 True, reading 8000 True] True (Some 4000))) = [3000]"
    by blast
  from b prepare_targets_schedule
      [of battle_init "[reading 5000 True, reading 3000 False, reading 8000 True]" False 6000 None]
  have d: "fst (prepare_targets battle_init
      [reading 5000 True, reading 3000 False, reading 8000 True] False (Some 6000)) = [reading 5000 True]"
    by simp
  from c d show ?thesis by simp
qed

section \<open>The scheduler's effect on the battle state\<close>

text \<open>
  Claim C9, as stated: \<open>prepare_targets\<close> has no side effects. It fails on the code:
  the method starts with \<open>self.reset()\<close> and stores the list, so a state in the middle of a
  cycle (two battles done) is not the state after the call.
\<close>

theorem prepare_targets_resets_state:
  "snd (prepare_targets battle_mid_cycle [reading 5000 True, reading 3000 True] True (Some 0))
     \<noteq> battle_mid_cycle
   \<and> battles_completed battle_mid_cycle = 2
   \<and> battles_completed (snd (prepare_targets battle_mid_cycle
         [reading 5000 True, reading 3000 True] True (Some 0))) = 0"
proof -
  have "battles_completed (snd (prepare_targets battle_mid_cycle
          [reading 5000 True, reading 3000 True] True (Some 0))) = 0"
    by (simp add: prepare_targets_def battle_reset_def Let_def)
  moreover have "battles_completed battle_mid_cycle = 2"
    by (simp add: battle_mid_cycle_def)
  ultimately show ?thesis by auto
qed

text \<open>
  Claim C9, amended. The target list is a function of the registry, \<open>weakest_first\<close> and
  \<open>max_power\<close> alone (the battle state does not influence it), it holds only readings of
  the registry, the scanner with its registry is left as it was, and a repeated call
  returns the same list and the same state. The one effect is on the battle state: the
  cursor and the battle counter are reset to 0, the list-valid flag to true, and the
  list is stored as \<open>sorted_targets\<close>.
\<close>

theorem prepare_targets_function_of_inputs:
  "fst (prepare_targets b opps weakest_first max_power)
     = fst (prepare_targets b' opps weakest_first max_power)
   \<and> set (fst (prepare_targets b opps weakest_first max_power)) \<subseteq> set opps
   \<and> scanner (snd (prepare_targets b opps weakest_first max_power)) = scanner b
   \<and> snd (prepare_targets b opps weakest_first max_power)
       = b\<lparr>sorted_targets := fst (prepare_targets b opps weakest_first max_power),
           current_target_index := 0, battles_completed := 0, list_valid := True\<rparr>
   \<and> prepare_targets (snd (prepare_targets b opps weakest_first max_power))
         opps weakest_first max_power
       = prepare_targets b opps weakest_first max_power"
proof -
  have sub: "set (fst (prepare_targets b opps weakest_first max_power)) \<subseteq> set opps"
    using py_sorted_mset [of opp_power "\<not> weakest_first"
        "filter (\<lambda>opp. opp_available opp \<and> power_limit max_power opp) opps", THEN mset_eq_setD]
    by (auto simp: prepare_targets_fst)
  show ?thesis
    using sub by (simp add: prepare_targets_def battle_reset_def Let_def)
qed

theorem prepare_targets_function_of_inputs_witness:
  "fst (prepare_targets battle_mid_cycle [reading 5000 True, reading 3000 True] True (Some 0))
     = [reading 3000 True, reading 5000 True]
   \<and> fst (prepare_targets battle_init [reading 5000 True, reading 3000 True] True (Some 0))
     = [reading 3000 True, reading 5000 True]
   \<and> snd (prepare_targets battle_mid_cycle [reading 5000 True, reading 3000 True] True (Some 0))
     = battle_init\<lparr>sorted_targets := [reading 3000 True, reading 5000 True]\<rparr>"
proof -
  have a: "fst (prepare_targets battle_init [reading 5000 True, reading 3000 True] True (Some 0))
     = [reading 3000 True, reading 5000 True]"
    by (simp add: prepare_targets_def py_sorted_def power_limit_def reading_def Let_def)
  note t = prepare_targets_function_of_inputs
    [of battle_mid_cycle "[reading 5000 True, reading 3000 True]" True "Some 0" battle_init]
  from t a have b: "fst (prepare_targets battle_mid_cycle
      [reading 5000 True, reading 3000 True] True (Some 0)) = [reading 3000 True, reading 5000 True]"
    by simp
  from t have "snd (prepare_targets battle_mid_cycle
      [reading 5000 True, reading 3000 True] True (Some 0))
    = battle_mid_cycle\<lparr>sorted_targets := fst (prepare_targets battle_mid_cycle
          [reading 5000 True, reading 3000 True] True (Some 0)),
        current_target_index := 0, battles_completed := 0, list_valid := True\<rparr>"
    by blast
  then have c: "snd (prepare_targets battle_mid_cycle
      [reading 5000 True, reading 3000 True] True (Some 0))
    = battle_init\<lparr>sorted_targets := [reading 3000 True, reading 5000 True]\<rparr>"
    unfolding b by (simp add: battle_mid_cycle_def battle_init_def)
  from a b c show ?thesis by simp
qed

section \<open>List-validity check\<close>

text \<open>
  Claim C7. \<open>verify_list_unchanged\<close> returns true exactly when the visible powers and the
  expected powers intersect; on an empty intersection it returns false and clears the
  list-valid flag, otherwise the flag is left as it was. With expected 100, 200, 300
  a visible set 300, 400 gives true, and a visible set 500, 600 gives false with the
  flag cleared.
\<close>

theorem verify_list_unchanged_overlap:
  "fst (verify_list_unchanged_with visible_powers b expected)
     = (fst (visible_powers (scanner b)) \<inter> expected \<noteq> {})
   \<and> list_valid (snd (verify_list_unchanged_with visible_powers b expected))
     = (if fst (visible_powers (scanner b)) \<inter> expected \<noteq> {} then list_valid b else False)
   \<and> fst (verify_list_unchanged e b expected)
     = (fst (get_current_visible_powers e (scanner b)) \<inter> expected \<noteq> {})
   \<and> list_valid (snd (verify_list_unchanged e b expected))
     = (if fst (get_current_visible_powers e (scanner b)) \<inter> expected \<noteq> {}
        then list_valid b else False)
   \<and> (fst (visible_powers (scanner b)) = {300, 400}
        \<longrightarrow> fst (verify_list_unchanged_with visible_powers b {100, 200, 300}))
   \<and> (fst (visible_powers (scanner b)) = {500, 600}
        \<longrightarrow> \<not> fst (verify_list_unchanged_with visible_powers b {100, 200, 300})
          \<and> \<not> list_valid (snd (verify_list_unchanged_with visible_powers b {100, 200, 300})))"
  by (cases "visible_powers (scanner b)"; cases "get_current_visible_powers e (scanner b)")
     (auto simp: verify_list_unchanged_def verify_list_unchanged_with_def Let_def)

theorem verify_list_unchanged_overlap_witness:
  "fst (verify_list_unchanged_with (\<lambda>s. ({300, 400}, s)) battle_init {100, 200, 300})
   \<and> \<not> fst (verify_list_unchanged_with (\<lambda>s. ({500, 600}, s)) battle_init {100, 200, 300})
   \<and> \<not> list_valid (snd (verify_list_unchanged_with (\<lambda>s. ({500, 600}, s)) battle_init {100, 200, 300}))
   \<and> list_valid (snd (verify_list_unchanged_with (\<lambda>s. ({300, 400}, s)) battle_init {100, 200, 300}))"
proof -
  have a: "fst ((\<lambda>s. ({300, 400::int}, s)) (scanner battle_init)) = {300, 400}"
    and b: "fst ((\<lambda>s. ({500, 600::int}, s)) (scanner battle_init)) = {500, 600}"
    by simp_all
  have c: "list_valid battle_init" by (simp add: battle_init_def)
  note t1 = verify_list_unchanged_overlap
      [of "\<lambda>s. ({300, 400}, s)" battle_init "{100, 200, 300}" env_blank]
  note t2 = verify_list_unchanged_overlap
      [of "\<lambda>s. ({500, 600}, s)" battle_init "{100, 200, 300}" env_blank]
  from t1 a have 1: "fst (verify_list_unchanged_with (\<lambda>s. ({300, 400}, s)) battle_init {100, 200, 300})"
    by blast
  from t2 b have 2: "\<not> fst (verify_list_unchanged_with (\<lambda>s. ({500, 600}, s)) battle_init {100, 200, 300})
     \<and> \<not> list_valid (snd (verify_list_unchanged_with (\<lambda>s. ({500, 600}, s)) battle_init {100, 200, 300}))"
    by blast
  from t1 c have 3: "list_valid (snd (verify_list_unchanged_with (\<lambda>s. ({300, 400}, s)) battle_init {100, 200, 300}))"
    by simp
  from 1 2 3 show ?thesis by simp
qed

section \<open>Token refill and the tracked scroll index\<close>

text \<open>
  Claim C2 at a concrete input: the empty-token indicator and the free refill are both
  on screen and the scanner's tracked index \<open>scroll_count\<close> is 3. The refill is consumed
  (the plus button and the free-token button are clicked) and the result is
  \<open>refilled\<close>, but the assignment goes to the attribute \<open>current_scroll_position\<close>:
  \<open>scroll_count\<close>, the index navigation reads, is still 3.
\<close>

theorem ensure_arena_tokens_refill_keeps_scroll_count:
  "fst (ensure_arena_tokens env_refill battle_scrolled) = ''refilled''
   \<and> scroll_count (scanner (snd (ensure_arena_tokens env_refill battle_scrolled))) = 3
   \<and> current_scroll_position (scanner (snd (ensure_arena_tokens env_refill battle_scrolled))) = Some 0
   \<and> actions (window_capture (scanner (snd (ensure_arena_tokens env_refill battle_scrolled))))
        = [Click 150 20, Click 150 100]"
  by (simp add: ensure_arena_tokens_def env_refill_def env_of_def capture_of_def
      battle_scrolled_def battle_init_def scanner_init_def world_init_def
      find_template_def find_and_click_def capture_frame_def click_at_offset_def issue_def Let_def)

text \<open>No path through \<open>ensure_arena_tokens\<close> writes \<open>scroll_count\<close>.\<close>

lemma ensure_arena_tokens_scroll_count:
  "scroll_count (scanner (snd (ensure_arena_tokens e b))) = scroll_count (scanner b)"
  by (simp add: ensure_arena_tokens_def Let_def split: prod.splits option.splits)

section \<open>Range of the parsed powers\<close>

text \<open>
  Claim C6 at a concrete input: the block transcription "Power: 1234567" with no
  positioned token. The primary path only rejects values below 1000, so the reading
  with power 1234567 is returned, above the range 1000..999999 that the fallback path
  enforces.
\<close>

theorem find_all_team_powers_above_range:
  "find_all_team_powers [] [\<lparr>group0 = ''Power: 1234567'', group1 = ''1234567''\<rparr>]
     = [\<lparr>tp_power = 1234567, tp_y_position = 50, tp_raw_text = ''Power: 1234567''\<rparr>]"
  by (simp add: find_all_team_powers_def primary_step_def strip_separators_def py_int_def
      is_space_def is_digit_def digits_value_def Let_def)

lemma primary_step_powers:
  "powers (primary_step results st m) = powers st
   \<or> (\<exists>v y. 1000 \<le> v \<and> py_int (strip_separators (group1 m)) = Some v
         \<and> powers (primary_step results st m)
             = powers st @ [\<lparr>tp_power = v, tp_y_position = y, tp_raw_text = group0 m\<rparr>])"
proof (cases "py_int (strip_separators (group1 m))")
  case None
  then show ?thesis by (simp add: primary_step_def)
next
  case (Some v)
  show ?thesis
  proof (cases "v < 1000")
    case True
    with Some show ?thesis by (simp add: primary_step_def)
  next
    case False
    with Some show ?thesis by (simp add: primary_step_def Let_def)
  qed
qed

lemma fallback_step_powers:
  "powers (fallback_step st r) = powers st
   \<or> (\<exists>v. 1000 \<le> v \<and> v \<le> 999999
         \<and> powers (fallback_step st r)
             = powers st @ [\<lparr>tp_power = v, tp_y_position = tok_y r,
                             tp_raw_text = ''[fallback] '' @ tok_text r\<rparr>])"
proof (cases "match_4_6_digits (strip_separators (tok_text r))")
  case False
  then show ?thesis by (auto simp: fallback_step_def Let_def)
next
  case digits: True
  show ?thesis
  proof (cases "py_int (strip_separators (tok_text r))")
    case None
    with digits show ?thesis by (auto simp: fallback_step_def Let_def)
  next
    case (Some v)
    show ?thesis
    proof (cases "1000 \<le> v \<and> v \<le> 999999 \<and> v \<notin> found_powers st")
      case False
      with digits Some have "fallback_step st r = st"
        by (auto simp: fallback_step_def Let_def)
      then show ?thesis by simp
    next
      case range: True
      show ?thesis
      proof (cases "\<exists>used_y \<in> used_y_positions st. \<bar>tok_y r - used_y\<bar> < 20")
        case True
        with digits Some range have "fallback_step st r = st"
          by (auto simp: fallback_step_def Let_def)
        then show ?thesis by simp
      next
        case False
        with digits Some range have "powers (fallback_step st r)
             = powers st @ [\<lparr>tp_power = v, tp_y_position = tok_y r,
                             tp_raw_text = ''[fallback] '' @ tok_text r\<rparr>]"
          by (auto simp: fallback_step_def Let_def)
        with range show ?thesis by blast
      qed
    qed
  qed
qed

lemma primary_step_at_least_1000:
  assumes "\<forall>p \<in> set (powers st). 1000 \<le> tp_power p"
  shows "\<forall>p \<in> set (powers (primary_step results st m)). 1000 \<le> tp_power p"
  using primary_step_powers [of results st m]
proof (elim disjE exE conjE)
  assume "powers (primary_step results st m) = powers st"
  with assms show ?thesis by simp
next
  fix v y
  assume "1000 \<le> v"
    and "powers (primary_step results st m)
           = powers st @ [\<lparr>tp_power = v, tp_y_position = y, tp_raw_text = group0 m\<rparr>]"
  with assms show ?thesis by simp
qed

lemma fallback_step_in_range:
  assumes "\<forall>p \<in> set (powers st). 1000 \<le> tp_power p \<and> (ub \<longrightarrow> tp_power p \<le> 999999)"
  shows "\<forall>p \<in> set (powers (fallback_step st r)).
           1000 \<le> tp_power p \<and> (ub \<longrightarrow> tp_power p \<le> 999999)"
  using fallback_step_powers [of st r]
proof (elim disjE exE conjE)
  assume "powers (fallback_step st r) = powers st"
  with assms show ?thesis by simp
next
  fix v
  assume "1000 \<le> v" "v \<le> 999999"
    and "powers (fallback_step st r)
           = powers st @ [\<lparr>tp_power = v, tp_y_position = tok_y r,
                           tp_raw_text = ''[fallback] '' @ tok_text r\<rparr>]"
  with assms show ?thesis by simp
qed

lemma foldl_primary_at_least_1000:
  "\<forall>p \<in> set (powers st). 1000 \<le> tp_power p
     \<Longrightarrow> \<forall>p \<in> set (powers (foldl (primary_step results) st ms)). 1000 \<le> tp_power p"
proof (induction ms arbitrary: st)
  case Nil
  then show ?case by simp
next
  case (Cons m ms)
  from Cons.prems have "\<forall>p \<in> set (powers (primary_step results st m)). 1000 \<le> tp_power p"
    by (rule primary_step_at_least_1000)
  then have "\<forall>p \<in> set (powers (foldl (primary_step results) (primary_step results st m) ms)).
               1000 \<le> tp_power p"
    by (rule Cons.IH)
  then show ?case by simp
qed

lemma foldl_fallback_in_range:
  "\<forall>p \<in> set (powers st). 1000 \<le> tp_power p \<and> (ub \<longrightarrow> tp_power p \<le> 999999)
     \<Longrightarrow> \<forall>p \<in> set (powers (foldl fallback_step st rs)).
           1000 \<le> tp_power p \<and> (ub \<longrightarrow> tp_power p \<le> 999999)"
proof (induction rs arbitrary: st)
  case Nil
  then show ?case by simp
next
  case (Cons r rs)
  from Cons.prems have "\<forall>p \<in> set (powers (fallback_step st r)).
      1000 \<le> tp_power p \<and> (ub \<longrightarrow> tp_power p \<le> 999999)"
    by (rule fallback_step_in_range)
  then have "\<forall>p \<in> set (powers (foldl fallback_step (fallback_step st r) rs)).
      1000 \<le> tp_power p \<and> (ub \<longrightarrow> tp_power p \<le> 999999)"
    by (rule Cons.IH)
  then show ?case by simp
qed

text \<open>
  What does hold of the parsed powers: none is below 1000 on either path, and the
  readings of the fallback path alone (no match of the label pattern) are within
  1000..999999.
\<close>

lemma find_all_team_powers_at_least_1000:
  "\<forall>p \<in> set (find_all_team_powers results matches_found). 1000 \<le> tp_power p"
proof -
  have "\<forall>p \<in> set (powers \<lparr>powers = [], used_y_positions = {}, found_powers = {}\<rparr>).
          1000 \<le> tp_power p"
    by simp
  then have "\<forall>p \<in> set (powers (foldl (primary_step results)
          \<lparr>powers = [], used_y_positions = {}, found_powers = {}\<rparr> matches_found)).
          1000 \<le> tp_power p \<and> (False \<longrightarrow> tp_power p \<le> 999999)"
    using foldl_primary_at_least_1000 by blast
  then have "\<forall>p \<in> set (powers (foldl fallback_step (foldl (primary_step results)
          \<lparr>powers = [], used_y_positions = {}, found_powers = {}\<rparr> matches_found) results)).
          1000 \<le> tp_power p \<and> (False \<longrightarrow> tp_power p \<le> 999999)"
    by (rule foldl_fallback_in_range)
  then show ?thesis by (simp add: find_all_team_powers_def)
qed

lemma find_all_team_powers_fallback_in_range:
  "\<forall>p \<in> set (find_all_team_powers results []). 1000 \<le> tp_power p \<and> tp_power p \<le> 999999"
proof -
  have "\<forall>p \<in> set (powers \<lparr>powers = [], used_y_positions = {}, found_powers = {}\<rparr>).
          1000 \<le> tp_power p \<and> (True \<longrightarrow> tp_power p \<le> 999999)"
    by simp
  then have "\<forall>p \<in> set (powers (foldl fallback_step
          \<lparr>powers = [], used_y_positions = {}, found_powers = {}\<rparr> results)).
          1000 \<le> tp_power p \<and> (True \<longrightarrow> tp_power p \<le> 999999)"
    by (rule foldl_fallback_in_range)
  then show ?thesis by (simp add: find_all_team_powers_def)
qed

section \<open>Skipped targets\<close>

lemma ensure_arena_tokens_frame:
  "snd (ensure_arena_tokens e b) = b\<lparr>scanner := scanner (snd (ensure_arena_tokens e b))\<rparr>"
  by (simp add: ensure_arena_tokens_def Let_def split: prod.splits option.splits)

lemma navigate_to_target_frame:
  "snd (navigate_to_target e b t) = b\<lparr>scanner := scanner (snd (navigate_to_target e b t))\<rparr>"
proof -
  define s1 where "s1 = (if opp_scroll_position t \<noteq> scroll_count (scanner b) then
                  if opp_scroll_position t < scroll_count (scanner b) then
                    ((scroll_list Up) ^^ nat (scroll_count (scanner b) - opp_scroll_position t)) (scanner b)
                  else ((scroll_list Down) ^^ nat (opp_scroll_position t - scroll_count (scanner b))) (scanner b)
                else scanner b)"
  obtain v1 s2 where a1: "verify_opponent_at_position e s1 (opp_power t) = (v1, s2)"
    by (cases "verify_opponent_at_position e s1 (opp_power t)")
  obtain v2 s4 where a2: "verify_opponent_at_position e (scroll_list Down s2) (opp_power t) = (v2, s4)"
    by (cases "verify_opponent_at_position e (scroll_list Down s2) (opp_power t)")
  obtain v3 s6 where a3:
    "verify_opponent_at_position e (scroll_list Up (scroll_list Up s4)) (opp_power t) = (v3, s6)"
    by (cases "verify_opponent_at_position e (scroll_list Up (scroll_list Up s4)) (opp_power t)")
  have "navigate_to_target e b t =
      (if v1 then (True, b\<lparr>scanner := s2\<rparr>)
       else if v2 then (True, b\<lparr>scanner := s4\<rparr>)
       else if v3 then (True, b\<lparr>scanner := s6\<rparr>)
       else (False, b\<lparr>scanner := scroll_list Down s6\<rparr>))"
    unfolding navigate_to_target_def Let_def s1_def [symmetric] by (simp add: a1 a2 a3)
  then show ?thesis by simp
qed

lemma click_battle_button_frame:
  "snd (click_battle_button e b p y) = b\<lparr>scanner := scanner (snd (click_battle_button e b p y))\<rparr>"
  by (simp add: click_battle_button_def Let_def split: prod.splits option.splits)

lemma click_start_fight_frame:
  "snd (click_start_fight e b) = b\<lparr>scanner := scanner (snd (click_start_fight e b))\<rparr>"
  by (simp add: click_start_fight_def Let_def split: prod.splits)

lemma wait_for_battle_complete_frame:
  "snd (wait_for_battle_complete e b) = b\<lparr>scanner := scanner (snd (wait_for_battle_complete e b))\<rparr>"
  by (simp add: wait_for_battle_complete_def Let_def split: prod.splits)

lemma click_return_arena_frame:
  "snd (click_return_arena e b) = b\<lparr>scanner := scanner (snd (click_return_arena e b))\<rparr>"
  by (simp add: click_return_arena_def Let_def split: prod.splits)

lemma same_cycle_frame: "b' = b\<lparr>scanner := s\<rparr> \<Longrightarrow> same_cycle b b'"
  by (simp add: same_cycle_def)

lemma same_cycle_trans: "same_cycle a b \<Longrightarrow> same_cycle b c \<Longrightarrow> same_cycle a c"
  by (simp add: same_cycle_def)

lemma attack_next_target_fields:
  assumes "attack_next_target e b = (result, b')"
  shows "(result = ''skip'' \<longrightarrow>
            current_target_index b' = current_target_index b + 1
          \<and> battles_completed b' = battles_completed b
          \<and> sorted_targets b' = sorted_targets b
          \<and> list_valid b' = list_valid b)
       \<and> (result = ''success'' \<longrightarrow>
            current_target_index b' = current_target_index b + 1
          \<and> battles_completed b' = battles_completed b + 1)"
proof -
  obtain ts b1 where tok: "ensure_arena_tokens e b = (ts, b1)"
    by (cases "ensure_arena_tokens e b")
  let ?t = "sorted_targets b1 ! current_target_index b1"
  obtain nav b2 where nv: "navigate_to_target e b1 ?t = (nav, b2)"
    by (cases "navigate_to_target e b1 ?t")
  obtain cl b3 where cb: "click_battle_button e b2 (opp_power ?t) (Some (opp_y_position ?t)) = (cl, b3)"
    by (cases "click_battle_button e b2 (opp_power ?t) (Some (opp_y_position ?t))")
  obtain sf b4 where st: "click_start_fight e b3 = (sf, b4)"
    by (cases "click_start_fight e b3")
  obtain wc b5 where wt: "wait_for_battle_complete e b4 = (wc, b5)"
    by (cases "wait_for_battle_complete e b4")
  obtain ra b6 where rt: "click_return_arena e b5 = (ra, b6)"
    by (cases "click_return_arena e b5")
  have c1: "same_cycle b b1"
    using ensure_arena_tokens_frame [of e b] by (intro same_cycle_frame) (simp add: tok)
  have "same_cycle b1 b2"
    using navigate_to_target_frame [of e b1 ?t] by (intro same_cycle_frame) (simp add: nv)
  with c1 have c2: "same_cycle b b2" by (rule same_cycle_trans)
  have "same_cycle b2 b3"
    using click_battle_button_frame [of e b2 "opp_power ?t" "Some (opp_y_position ?t)"]
    by (intro same_cycle_frame) (simp add: cb)
  with c2 have c3: "same_cycle b b3" by (rule same_cycle_trans)
  have "same_cycle b3 b4"
    using click_start_fight_frame [of e b3] by (intro same_cycle_frame) (simp add: st)
  with c3 have c4: "same_cycle b b4" by (rule same_cycle_trans)
  have "same_cycle b4 b5"
    using wait_for_battle_complete_frame [of e b4] by (intro same_cycle_frame) (simp add: wt)
  with c4 have c5: "same_cycle b b5" by (rule same_cycle_trans)
  have "same_cycle b5 b6"
    using click_return_arena_frame [of e b5] by (intro same_cycle_frame) (simp add: rt)
  with c5 have c6: "same_cycle b b6" by (rule same_cycle_trans)
  from assms c2 c3 c4 c5 c6 show ?thesis
    by (auto simp: attack_next_target_def Let_def tok nv cb st wt rt same_cycle_def
             split: if_splits)
qed

text \<open>
  Claim C8. Whenever \<open>attack_next_target\<close> returns \<open>skip\<close>, whichever step failed, the
  cursor has advanced by exactly one and the battle counter is unchanged (as are the
  target list and the list-valid flag), so the next call looks at the next target.
  The attack phase only goes on after \<open>skip\<close> or \<open>success\<close>, and \<open>success\<close> advances the
  cursor by one as well: no target is tried twice.
\<close>

theorem attack_next_target_skip_advances:
  "(fst (attack_next_target e b) = ''skip''
     \<longrightarrow> current_target_index (snd (attack_next_target e b)) = current_target_index b + 1
       \<and> battles_completed (snd (attack_next_target e b)) = battles_completed b
       \<and> sorted_targets (snd (attack_next_target e b)) = sorted_targets b
       \<and> list_valid (snd (attack_next_target e b)) = list_valid b)
   \<and> (fst (attack_next_target e b) = ''success''
     \<longrightarrow> current_target_index (snd (attack_next_target e b)) = current_target_index b + 1
       \<and> battles_completed (snd (attack_next_target e b)) = battles_completed b + 1)"
  using attack_next_target_fields [of e b "fst (attack_next_target e b)" "snd (attack_next_target e b)"]
  by simp

lemma attack_blank_skips: "fst (attack_next_target env_blank battle_one_target) = ''skip''"
  by (simp add: attack_next_target_def battle_one_target_def battle_init_def scanner_init_def
      world_init_def ARENA_MAX_BATTLES_def ensure_arena_tokens_def find_template_def
      capture_frame_def env_blank_def env_of_def capture_of_def navigate_to_target_def
      verify_opponent_at_position_def find_all_team_powers_def reading_def scroll_list_def
      issue_def Let_def)

theorem attack_next_target_skip_advances_witness:
  "fst (attack_next_target env_blank battle_one_target) = ''skip''
   \<and> current_target_index (snd (attack_next_target env_blank battle_one_target)) = 1
   \<and> battles_completed (snd (attack_next_target env_blank battle_one_target)) = 0"
  using attack_next_target_skip_advances [of env_blank battle_one_target] attack_blank_skips
  by (simp add: battle_one_target_def battle_init_def)

section \<open>Availability when the button cannot be sampled\<close>

lemma check_battle_available_empty:
  "sample_region_size f y = 0 \<Longrightarrow> check_battle_available f y"
  by (simp add: check_battle_available_def Let_def)

lemma sample_rows_below_frame:
  "int (frame_height f) + 80 \<le> y \<Longrightarrow> sample_rows f y = []"
  by (simp add: sample_rows_def np_slice_def Let_def)

lemma scan_visible_opponents_available:
  assumes "opp \<in> set (fst (scan_visible_opponents e s use_bottom_band))"
  shows "opp_available opp
           = check_battle_available (cap_frame (frames e (captures (window_capture s))))
               (opp_y_position opp)"
  using assms
  by (auto simp: scan_visible_opponents_def capture_frame_def Let_def)

lemma prepare_targets_keeps:
  "opp \<in> set opps \<Longrightarrow> opp_available opp \<Longrightarrow> power_limit max_power opp
     \<Longrightarrow> opp \<in> set (fst (prepare_targets b opps weakest_first max_power))"
  using py_sorted_mset [of opp_power "\<not> weakest_first"
        "filter (\<lambda>opp. opp_available opp \<and> power_limit max_power opp) opps", THEN mset_eq_setD]
  by (simp add: prepare_targets_fst)

text \<open>
  Claim C10. If the sample region of \<open>check_battle_available\<close> is empty, the result is
  true; this is the case for every row position at least 80 pixels below the frame.
  A scanned reading whose region is empty is therefore available, and
  \<open>prepare_targets\<close> keeps such a reading (when it passes the power filter).
\<close>

theorem check_battle_available_unsampled:
  "(sample_region_size f y = 0 \<longrightarrow> check_battle_available f y)
   \<and> (int (frame_height f) + 80 \<le> y \<longrightarrow> sample_region_size f y = 0)
   \<and> (\<forall>opp \<in> set (fst (scan_visible_opponents e s use_bottom_band)).
         sample_region_size (cap_frame (frames e (captures (window_capture s)))) (opp_y_position opp) = 0
         \<longrightarrow> opp_available opp)
   \<and> (sample_region_size f y = 0 \<and> opp \<in> set opps \<and> opp_available opp = check_battle_available f y
        \<and> power_limit max_power opp
        \<longrightarrow> opp \<in> set (fst (prepare_targets b opps weakest_first max_power)))"
proof (intro conjI)
  show "sample_region_size f y = 0 \<longrightarrow> check_battle_available f y"
    by (simp add: check_battle_available_empty)
  show "int (frame_height f) + 80 \<le> y \<longrightarrow> sample_region_size f y = 0"
    by (simp add: sample_region_size_def sample_rows_below_frame)
  show "\<forall>opp \<in> set (fst (scan_visible_opponents e s use_bottom_band)).
         sample_region_size (cap_frame (frames e (captures (window_capture s)))) (opp_y_position opp) = 0
         \<longrightarrow> opp_available opp"
    using scan_visible_opponents_available [of _ e s use_bottom_band]
    by (simp add: check_battle_available_empty)
  show "sample_region_size f y = 0 \<and> opp \<in> set opps \<and> opp_available opp = check_battle_available f y
        \<and> power_limit max_power opp
        \<longrightarrow> opp \<in> set (fst (prepare_targets b opps weakest_first max_power))"
    using prepare_targets_keeps [of opp opps max_power b weakest_first]
    by (simp add: check_battle_available_empty)
qed

theorem check_battle_available_unsampled_witness:
  "sample_region_size frame_gray 84 = 0
   \<and> check_battle_available frame_gray 84
   \<and> \<not> check_battle_available frame_gray 2
   \<and> reading 3000 (check_battle_available frame_gray 84)
        \<in> set (fst (prepare_targets battle_init
             [reading 5000 False, reading 3000 (check_battle_available frame_gray 84)] True (Some 0)))"
proof -
  have h: "int (frame_height frame_gray) + 80 \<le> 84" by (simp add: frame_gray_def)
  note t = check_battle_available_unsampled [of frame_gray 84 env_blank scanner_init False
      "reading 3000 (check_battle_available frame_gray 84)"
      "[reading 5000 False, reading 3000 (check_battle_available frame_gray 84)]" "Some 0"
      battle_init True]
  from t h have z: "sample_region_size frame_gray 84 = 0" by blast
  with t have a: "check_battle_available frame_gray 84" by blast
  have p: "power_limit (Some 0) (reading 3000 (check_battle_available frame_gray 84))"
    by (simp add: power_limit_def)
  have m: "reading 3000 (check_battle_available frame_gray 84)
      \<in> set [reading 5000 False, reading 3000 (check_battle_available frame_gray 84)]" by simp
  have av: "opp_available (reading 3000 (check_battle_available frame_gray 84))
              = check_battle_available frame_gray 84" by (simp add: reading_def)
  from t z m av p have k: "reading 3000 (check_battle_available frame_gray 84)
        \<in> set (fst (prepare_targets battle_init
             [reading 5000 False, reading 3000 (check_battle_available frame_gray 84)] True (Some 0)))"
    by blast
  have n: "\<not> check_battle_available frame_gray 2"
    by (simp add: check_battle_available_def sample_region_size_def sample_rows_def sample_cols_def
        np_slice_def battle_button_x_def frame_gray_def is_orange_def Let_def upt_rec)
  from z a n k show ?thesis by simp
qed

section \<open>The scroll-and-scan loop\<close>

text \<open>What each scanner operation does to the fields the claims are about.\<close>

named_theorems scan_facts

lemma scroll_list_fields [scan_facts]:
  "scroll_count (scroll_list Down s) = scroll_count s + 1"
  "scroll_count (scroll_list Up s) = max 0 (scroll_count s - 1)"
  "opponents (scroll_list d s) = opponents s"
  "known_powers (scroll_list d s) = known_powers s"
  "captures (window_capture (scroll_list d s)) = captures (window_capture s)"
  "actions (window_capture (scroll_list d s)) = actions (window_capture s) @ [Drag d]"
  by (cases d; simp add: scroll_list_def issue_def Let_def)+

lemma scan_visible_opponents_fields [scan_facts]:
  "scroll_count (snd (scan_visible_opponents e s b)) = scroll_count s"
  "opponents (snd (scan_visible_opponents e s b)) = opponents s"
  "known_powers (snd (scan_visible_opponents e s b)) = known_powers s"
  "captures (window_capture (snd (scan_visible_opponents e s b))) = Suc (captures (window_capture s))"
  "actions (window_capture (snd (scan_visible_opponents e s b))) = actions (window_capture s)"
  by (simp_all add: scan_visible_opponents_def capture_frame_def Let_def)

lemma dedup_loop_world:
  "window_capture (fst (dedup_loop xs s n)) = window_capture s"
  by (induction xs s n rule: dedup_loop.induct) simp_all

lemma add_opponents_with_dedup_fields [scan_facts]:
  "scroll_count (snd (add_opponents_with_dedup s xs)) = scroll_count s"
  "window_capture (snd (add_opponents_with_dedup s xs)) = window_capture s"
proof -
  obtain s1 n where d: "dedup_loop xs s 0 = (s1, n)" by (cases "dedup_loop xs s 0")
  with dedup_loop_scroll_count [of xs s 0] dedup_loop_world [of xs s 0]
  show "scroll_count (snd (add_opponents_with_dedup s xs)) = scroll_count s"
    "window_capture (snd (add_opponents_with_dedup s xs)) = window_capture s"
    by (simp_all add: add_opponents_with_dedup_def)
qed

text \<open>An invariant rule for the scroll-and-scan loop.\<close>

lemma scan_loop_rule:
  assumes init: "I st"
    and continue: "\<And>st st'. I st \<Longrightarrow> scroll_count (the_scanner st) < ARENA_MAX_SCROLL_ATTEMPTS
                     \<Longrightarrow> scan_step e st = Continue st' \<Longrightarrow> I st'"
    and break: "\<And>st st'. I st \<Longrightarrow> scroll_count (the_scanner st) < ARENA_MAX_SCROLL_ATTEMPTS
                     \<Longrightarrow> scan_step e st = Break st' \<Longrightarrow> Q st'"
    and ceiling: "\<And>st. I st \<Longrightarrow> \<not> scroll_count (the_scanner st) < ARENA_MAX_SCROLL_ATTEMPTS \<Longrightarrow> Q st"
  shows "Q (scan_loop e st)"
  using assms
proof (induction e st rule: scan_loop.induct)
  case (1 e st)
  note inv = "1.prems"(1) and cont = "1.prems"(2) and brk = "1.prems"(3) and ceil = "1.prems"(4)
  show ?case
  proof (cases "scroll_count (the_scanner st) < ARENA_MAX_SCROLL_ATTEMPTS")
    case False
    with ceil [OF inv] show ?thesis by (simp add: scan_loop.simps [of e st])
  next
    case below: True
    show ?thesis
    proof (cases "scan_step e st")
      case (Break st')
      with below brk [OF inv below] show ?thesis by (simp add: scan_loop.simps [of e st])
    next
      case (Continue st')
      have "I st'" using cont [OF inv below Continue] .
      then have "Q (scan_loop e st')"
        using "1.IH" [OF below Continue] cont brk ceil by blast
      with below Continue show ?thesis by (simp add: scan_loop.simps [of e st])
    qed
  qed
qed

lemma scan_step_world:
  "\<exists>k. (k = 1 \<or> k = 2)
     \<and> captures (window_capture (the_scanner (exit_state (scan_step e st))))
         = captures (window_capture (the_scanner st)) + k
     \<and> actions (window_capture (the_scanner (exit_state (scan_step e st))))
         = actions (window_capture (the_scanner st)) @ replicate k (Drag Down)"
proof (cases rule: scan_step_cases [of e st])
  case (Empty s2)
  have "s2 = snd (scan_visible_opponents e (scroll_list Down (the_scanner st)) True)"
    using Empty(1) by simp
  with Empty(2) show ?thesis
    by (intro exI [of _ 1]) (simp add: exit_state_def scan_facts)
next
  case (End_of_list visible s2)
  have "s2 = snd (scan_visible_opponents e (scroll_list Down (the_scanner st)) True)"
    using End_of_list(1) by simp
  with End_of_list(5) show ?thesis
    by (intro exI [of _ 1]) (simp add: exit_state_def scan_facts)
next
  case (New visible s2 added s3)
  have "s2 = snd (scan_visible_opponents e (scroll_list Down (the_scanner st)) True)"
    and "s3 = snd (add_opponents_with_dedup s2 visible)"
    using New(1,4) by simp_all
  with New(6) show ?thesis
    by (intro exI [of _ 1]) (simp add: exit_state_def scan_facts)
next
  case (Confirmed visible s2 s3 visible2 s5)
  have "s2 = snd (scan_visible_opponents e (scroll_list Down (the_scanner st)) True)"
    and "s3 = snd (add_opponents_with_dedup s2 visible)"
    and "s5 = snd (scan_visible_opponents e (scroll_list Down s3) True)"
    using Confirmed(1,4,5) by simp_all
  with Confirmed(7) show ?thesis
    by (intro exI [of _ 2]) (simp add: exit_state_def scan_facts numeral_2_eq_2)
next
  case (Unconfirmed visible s2 s3 visible2 s5 added2 s7)
  have "s2 = snd (scan_visible_opponents e (scroll_list Down (the_scanner st)) True)"
    and "s3 = snd (add_opponents_with_dedup s2 visible)"
    and "s5 = snd (scan_visible_opponents e (scroll_list Down s3) True)"
    and "s7 = snd (add_opponents_with_dedup (s5\<lparr>scroll_count := scroll_count s5 - 1\<rparr>) visible2)"
    using Unconfirmed(1,4,5,7) by simp_all
  with Unconfirmed(8) show ?thesis
    by (intro exI [of _ 2]) (simp add: exit_state_def scan_facts numeral_2_eq_2)
qed

lemma scan_loop_bounded:
  assumes "scroll_count (the_scanner st) = 0"
  shows "\<exists>downs \<le> 12.
           captures (window_capture (the_scanner (scan_loop e st)))
             = captures (window_capture (the_scanner st)) + downs
         \<and> actions (window_capture (the_scanner (scan_loop e st)))
             = actions (window_capture (the_scanner st)) @ replicate downs (Drag Down)"
proof -
  define c where "c = captures (window_capture (the_scanner st))"
  define a where "a = actions (window_capture (the_scanner st))"
  define I where "I = (\<lambda>st'::scan_state. 0 \<le> scroll_count (the_scanner st')
      \<and> scroll_count (the_scanner st') \<le> ARENA_MAX_SCROLL_ATTEMPTS
      \<and> (\<exists>n \<le> 2 * nat (scroll_count (the_scanner st')).
            captures (window_capture (the_scanner st')) = c + n
          \<and> actions (window_capture (the_scanner st')) = a @ replicate n (Drag Down)))"
  define Q where "Q = (\<lambda>st'::scan_state. \<exists>n \<le> 12.
            captures (window_capture (the_scanner st')) = c + n
          \<and> actions (window_capture (the_scanner st')) = a @ replicate n (Drag Down))"
  have "Q (scan_loop e st)"
  proof (rule scan_loop_rule [where I = I and Q = Q])
    show "I st" using assms by (simp add: I_def c_def a_def ARENA_MAX_SCROLL_ATTEMPTS_def)
  next
    fix st1 st2
    assume i: "I st1" and below: "scroll_count (the_scanner st1) < ARENA_MAX_SCROLL_ATTEMPTS"
      and step: "scan_step e st1 = Continue st2"
    from i obtain n where n: "n \<le> 2 * nat (scroll_count (the_scanner st1))"
        "captures (window_capture (the_scanner st1)) = c + n"
        "actions (window_capture (the_scanner st1)) = a @ replicate n (Drag Down)"
      and nonneg: "0 \<le> scroll_count (the_scanner st1)"
      by (auto simp: I_def)
    from scan_step_world [of e st1] step obtain k where k: "k = 1 \<or> k = 2"
        "captures (window_capture (the_scanner st2)) = captures (window_capture (the_scanner st1)) + k"
        "actions (window_capture (the_scanner st2))
           = actions (window_capture (the_scanner st1)) @ replicate k (Drag Down)"
      by (auto simp: exit_state_def)
    have sc: "scroll_count (the_scanner st2) = scroll_count (the_scanner st1) + 1"
      using step by (rule scan_step_Continue_scroll_count)
    have "n + k \<le> 2 * nat (scroll_count (the_scanner st2))"
      using n(1) k(1) nonneg sc by auto
    moreover have "captures (window_capture (the_scanner st2)) = c + (n + k)"
      using n(2) k(2) by simp
    moreover have "actions (window_capture (the_scanner st2)) = a @ replicate (n + k) (Drag Down)"
      using n(3) k(3) by (simp add: replicate_add)
    ultimately show "I st2"
      using nonneg below sc unfolding I_def by (intro conjI exI [of _ "n + k"]) simp_all
  next
    fix st1 st2
    assume i: "I st1" and below: "scroll_count (the_scanner st1) < ARENA_MAX_SCROLL_ATTEMPTS"
      and step: "scan_step e st1 = Break st2"
    from i obtain n where n: "n \<le> 2 * nat (scroll_count (the_scanner st1))"
        "captures (window_capture (the_scanner st1)) = c + n"
        "actions (window_capture (the_scanner st1)) = a @ replicate n (Drag Down)"
      and nonneg: "0 \<le> scroll_count (the_scanner st1)"
      by (auto simp: I_def)
    from scan_step_world [of e st1] step obtain k where k: "k = 1 \<or> k = 2"
        "captures (window_capture (the_scanner st2)) = captures (window_capture (the_scanner st1)) + k"
        "actions (window_capture (the_scanner st2))
           = actions (window_capture (the_scanner st1)) @ replicate k (Drag Down)"
      by (auto simp: exit_state_def)
    have "n + k \<le> 12"
      using n(1) k(1) nonneg below by (auto simp: ARENA_MAX_SCROLL_ATTEMPTS_def)
    moreover have "captures (window_capture (the_scanner st2)) = c + (n + k)"
      using n(2) k(2) by simp
    moreover have "actions (window_capture (the_scanner st2)) = a @ replicate (n + k) (Drag Down)"
      using n(3) k(3) by (simp add: replicate_add)
    ultimately show "Q st2" unfolding Q_def by (intro exI [of _ "n + k"]) simp
  next
    fix st1
    assume i: "I st1" and "\<not> scroll_count (the_scanner st1) < ARENA_MAX_SCROLL_ATTEMPTS"
    then show "Q st1"
      by (auto simp: I_def Q_def ARENA_MAX_SCROLL_ATTEMPTS_def)
  qed
  then show ?thesis by (simp add: Q_def c_def a_def)
qed

lemma scroll_up_funpow_fields [scan_facts]:
  "actions (window_capture (((scroll_list Up) ^^ n) s)) = actions (window_capture s) @ replicate n (Drag Up)"
  "captures (window_capture (((scroll_list Up) ^^ n) s)) = captures (window_capture s)"
  "opponents (((scroll_list Up) ^^ n) s) = opponents s"
  "known_powers (((scroll_list Up) ^^ n) s) = known_powers s"
  by (induction n) (simp_all add: scan_facts replicate_append_same)

lemma run_full_scan_unfold:
  "run_full_scan e s =
     (let s3 = the_scanner (scan_loop e (loop_start e s));
          s5 = s3\<lparr>scroll_count := max 0 (scroll_count s3),
                  max_scroll_reached := max 0 (scroll_count s3)\<rparr>;
          s7 = (return_to_top s5)\<lparr>scroll_count := 0\<rparr>
      in (opponents s7, s7))"
  by (simp add: run_full_scan_def loop_start_def Let_def case_prod_beta)

lemma scanner_reset_fields [scan_facts]:
  "scroll_count (scanner_reset s) = 0"
  "opponents (scanner_reset s) = []"
  "known_powers (scanner_reset s) = {}"
  "window_capture (scanner_reset s) = window_capture s"
  by (simp_all add: scanner_reset_def)

lemma loop_start_fields:
  "scroll_count (the_scanner (loop_start e s)) = 0"
  "captures (window_capture (the_scanner (loop_start e s))) = Suc (captures (window_capture s))"
  "actions (window_capture (the_scanner (loop_start e s))) = actions (window_capture s)"
  "last_bottom_powers (loop_start e s) = {}"
  by (simp_all add: loop_start_def Let_def scan_facts)

lemma run_full_scan_world:
  "\<exists>downs \<le> 12.
      captures (window_capture (snd (run_full_scan e s)))
        = captures (window_capture s) + 1 + downs
    \<and> actions (window_capture (snd (run_full_scan e s)))
        = actions (window_capture s) @ replicate downs (Drag Down) @ replicate 6 (Drag Up)"
proof -
  from scan_loop_bounded [of "loop_start e s" e, OF loop_start_fields(1)]
  obtain downs where d: "downs \<le> 12"
      "captures (window_capture (the_scanner (scan_loop e (loop_start e s))))
             = captures (window_capture (the_scanner (loop_start e s))) + downs"
      "actions (window_capture (the_scanner (scan_loop e (loop_start e s))))
             = actions (window_capture (the_scanner (loop_start e s))) @ replicate downs (Drag Down)"
    by blast
  show ?thesis
    using d
    by (intro exI [of _ downs])
       (simp add: run_full_scan_unfold Let_def return_to_top_def scan_facts loop_start_fields
          ARENA_MAX_SCROLL_ATTEMPTS_def)
qed

lemma loop_start_blank: "loop_start env_blank scanner_init
   = \<lparr>the_scanner = scanner_init\<lparr>window_capture := \<lparr>captures = 1, actions = []\<rparr>\<rparr>,
       last_bottom_powers = {}, consecutive_empty_scans = 0\<rparr>"
  by (simp add: loop_start_def scan_visible_opponents_def capture_frame_def env_blank_def env_of_def
      capture_of_def find_all_team_powers_def add_opponents_with_dedup_def scanner_reset_def
      scanner_init_def world_init_def Let_def)

lemma scan_step_blank: "scan_step env_blank (loop_start env_blank scanner_init)
   = Continue \<lparr>the_scanner = scanner_init\<lparr>scroll_count := 1,
        window_capture := \<lparr>captures = 2, actions = [Drag Down]\<rparr>\<rparr>,
       last_bottom_powers = {}, consecutive_empty_scans = 1\<rparr>"
  unfolding loop_start_blank
  by (simp add: scan_step_def scroll_list_def issue_def
      scan_visible_opponents_def capture_frame_def env_blank_def env_of_def
      capture_of_def find_all_team_powers_def
      scanner_init_def world_init_def Let_def)

subsection \<open>Termination and return to the top\<close>

text \<open>
  Claim C5. \<open>run_full_scan\<close> returns for every feed: the loop is entered only while the
  tracked index is below the ceiling, every iteration that goes on raises the index by
  one, and so a run takes at most 12 scroll steps down (one capture each, after the
  full scan). On return the scanner has scrolled up six times, the ceiling, as its last
  actions, and the tracked index is 0.
\<close>

theorem run_full_scan_terminates:
  "scroll_count (snd (run_full_scan e s)) = 0
   \<and> (\<exists>downs \<le> 12.
        captures (window_capture (snd (run_full_scan e s))) = captures (window_capture s) + 1 + downs
      \<and> actions (window_capture (snd (run_full_scan e s)))
          = actions (window_capture s) @ replicate downs (Drag Down) @ replicate 6 (Drag Up))
   \<and> (scroll_count (the_scanner st) < ARENA_MAX_SCROLL_ATTEMPTS
        \<longrightarrow> scan_loop e st = (case scan_step e st of Break st' \<Rightarrow> st' | Continue st' \<Rightarrow> scan_loop e st'))
   \<and> (\<not> scroll_count (the_scanner st) < ARENA_MAX_SCROLL_ATTEMPTS \<longrightarrow> scan_loop e st = st)
   \<and> (\<forall>st'. scan_step e st = Continue st'
        \<longrightarrow> scroll_count (the_scanner st') = scroll_count (the_scanner st) + 1)"
proof (intro conjI)
  show "scroll_count (snd (run_full_scan e s)) = 0"
    by (simp add: run_full_scan_unfold Let_def)
  show "\<exists>downs \<le> 12.
        captures (window_capture (snd (run_full_scan e s))) = captures (window_capture s) + 1 + downs
      \<and> actions (window_capture (snd (run_full_scan e s)))
          = actions (window_capture s) @ replicate downs (Drag Down) @ replicate 6 (Drag Up)"
    by (rule run_full_scan_world)
  show "scroll_count (the_scanner st) < ARENA_MAX_SCROLL_ATTEMPTS
        \<longrightarrow> scan_loop e st = (case scan_step e st of Break st' \<Rightarrow> st' | Continue st' \<Rightarrow> scan_loop e st')"
    by (simp add: scan_loop.simps [of e st])
  show "\<not> scroll_count (the_scanner st) < ARENA_MAX_SCROLL_ATTEMPTS \<longrightarrow> scan_loop e st = st"
    by (simp add: scan_loop.simps [of e st])
  show "\<forall>st'. scan_step e st = Continue st'
        \<longrightarrow> scroll_count (the_scanner st') = scroll_count (the_scanner st) + 1"
    by (simp add: scan_step_Continue_scroll_count)
qed

theorem run_full_scan_terminates_witness:
  "scroll_count (snd (run_full_scan env_blank scanner_init)) = 0
   \<and> (\<exists>downs \<le> 12.
        captures (window_capture (snd (run_full_scan env_blank scanner_init))) = 1 + downs
      \<and> actions (window_capture (snd (run_full_scan env_blank scanner_init)))
          = replicate downs (Drag Down) @ replicate 6 (Drag Up))
   \<and> (\<exists>st'. scan_step env_blank (loop_start env_blank scanner_init) = Continue st'
         \<and> scroll_count (the_scanner st') = 1
         \<and> scan_loop env_blank (loop_start env_blank scanner_init) = scan_loop env_blank st')"
proof -
  note t = run_full_scan_terminates [of env_blank scanner_init "loop_start env_blank scanner_init"]
  have f: "captures (window_capture scanner_init) = 0" "actions (window_capture scanner_init) = []"
    by (simp_all add: scanner_init_def world_init_def)
  have z: "scroll_count (the_scanner (loop_start env_blank scanner_init)) = 0"
    by (rule loop_start_fields)
  then have below: "scroll_count (the_scanner (loop_start env_blank scanner_init))
                      < ARENA_MAX_SCROLL_ATTEMPTS"
    by (simp add: ARENA_MAX_SCROLL_ATTEMPTS_def)
  from scan_step_blank obtain st' where c: "scan_step env_blank (loop_start env_blank scanner_init) = Continue st'"
    by blast
  with t have "scroll_count (the_scanner st')
      = scroll_count (the_scanner (loop_start env_blank scanner_init)) + 1"
    by blast
  with z have 1: "scroll_count (the_scanner st') = 1" by simp
  from t below have "scan_loop env_blank (loop_start env_blank scanner_init)
      = (case scan_step env_blank (loop_start env_blank scanner_init) of
           Break st' \<Rightarrow> st' | Continue st' \<Rightarrow> scan_loop env_blank st')"
    by blast
  with c have 2: "scan_loop env_blank (loop_start env_blank scanner_init) = scan_loop env_blank st'"
    by simp
  from t have 3: "scroll_count (snd (run_full_scan env_blank scanner_init)) = 0" by blast
  from t have 4: "\<exists>downs \<le> 12.
        captures (window_capture (snd (run_full_scan env_blank scanner_init)))
          = captures (window_capture scanner_init) + 1 + downs
      \<and> actions (window_capture (snd (run_full_scan env_blank scanner_init)))
          = actions (window_capture scanner_init) @ replicate downs (Drag Down)
              @ replicate 6 (Drag Up)"
    by blast
  from c 1 2 3 4 show ?thesis by (auto simp: f)
qed

subsection \<open>Deduplication\<close>

lemma registry_ok_cong:
  "opponents s' = opponents s \<Longrightarrow> known_powers s' = known_powers s
     \<Longrightarrow> registry_ok s' = registry_ok s"
  by (simp add: registry_ok_def)

lemma dedup_loop_registry_ok:
  "registry_ok s \<Longrightarrow> registry_ok (fst (dedup_loop xs s n))"
proof (induction xs s n rule: dedup_loop.induct)
  case (1 s added_count)
  then show ?case by simp
next
  case (2 opp rest s added_count)
  show ?case
  proof (cases "opp_power opp \<in> known_powers s")
    case True
    with 2 show ?thesis by simp
  next
    case False
    with "2.prems" have "registry_ok (s\<lparr>known_powers := insert (opp_power opp) (known_powers s),
             opponents := opponents s @ [opp]\<rparr>)"
      by (auto simp: registry_ok_def)
    with False "2.IH"(1) show ?thesis by simp
  qed
qed

lemma dedup_loop_appends:
  "\<exists>appended. opponents (fst (dedup_loop xs s n)) = opponents s @ appended
      \<and> set appended \<subseteq> set xs
      \<and> (\<forall>opp \<in> set appended. opp_power opp \<notin> known_powers s)
      \<and> snd (dedup_loop xs s n) = n + length appended"
proof (induction xs s n rule: dedup_loop.induct)
  case (1 s added_count)
  then show ?case by simp
next
  case (2 opp rest s added_count)
  show ?case
  proof (cases "opp_power opp \<in> known_powers s")
    case True
    with "2.IH"(2) show ?thesis by auto
  next
    case False
    let ?s = "s\<lparr>known_powers := insert (opp_power opp) (known_powers s),
             opponents := opponents s @ [opp]\<rparr>"
    from "2.IH"(1) [OF False] obtain appended where a:
      "opponents (fst (dedup_loop rest ?s (added_count + 1))) = opponents ?s @ appended"
      "set appended \<subseteq> set rest"
      "\<forall>opp \<in> set appended. opp_power opp \<notin> known_powers ?s"
      "snd (dedup_loop rest ?s (added_count + 1)) = added_count + 1 + length appended"
      by blast
    show ?thesis
      using a False by (intro exI [of _ "opp # appended"]) auto
  qed
qed

lemma dedup_loop_known_powers:
  "known_powers (fst (dedup_loop xs s n)) = known_powers s \<union> set (map opp_power xs)"
  by (induction xs s n rule: dedup_loop.induct) auto

lemma dedup_loop_all_known:
  "set (map opp_power xs) \<subseteq> known_powers s \<Longrightarrow> dedup_loop xs s n = (s, n)"
  by (induction xs s n rule: dedup_loop.induct) auto

lemma add_opponents_with_dedup_registry_ok:
  assumes "registry_ok s"
  shows "registry_ok (snd (add_opponents_with_dedup s xs))"
proof (cases "dedup_loop xs s 0")
  case (Pair s1 n)
  with dedup_loop_registry_ok [OF assms, of xs 0] have "registry_ok s1" by simp
  then have "registry_ok (s1\<lparr>max_scroll_reached := scroll_count s1\<rparr>)"
    by (simp add: registry_ok_def)
  with Pair \<open>registry_ok s1\<close> show ?thesis by (simp add: add_opponents_with_dedup_def)
qed

lemma add_opponents_with_dedup_appends:
  "\<exists>appended. opponents (snd (add_opponents_with_dedup s xs)) = opponents s @ appended
      \<and> set appended \<subseteq> set xs
      \<and> (\<forall>opp \<in> set appended. opp_power opp \<notin> known_powers s)
      \<and> fst (add_opponents_with_dedup s xs) = length appended"
proof (cases "dedup_loop xs s 0")
  case (Pair s1 n)
  with dedup_loop_appends [of xs s 0] show ?thesis
    by (auto simp: add_opponents_with_dedup_def)
qed

lemma add_opponents_with_dedup_known_powers [scan_facts]:
  "known_powers (snd (add_opponents_with_dedup s xs)) = known_powers s \<union> set (map opp_power xs)"
proof (cases "dedup_loop xs s 0")
  case (Pair s1 n)
  with dedup_loop_known_powers [of xs s 0] show ?thesis
    by (simp add: add_opponents_with_dedup_def)
qed

lemma add_opponents_with_dedup_all_known:
  "set (map opp_power xs) \<subseteq> known_powers s \<Longrightarrow> add_opponents_with_dedup s xs = (0, s)"
  by (simp add: add_opponents_with_dedup_def dedup_loop_all_known)

lemma add_opponents_with_dedup_twice:
  "add_opponents_with_dedup (snd (add_opponents_with_dedup s xs)) xs
     = (0, snd (add_opponents_with_dedup s xs))"
  by (rule add_opponents_with_dedup_all_known) (simp add: add_opponents_with_dedup_known_powers)

lemma one_entry_per_power:
  "distinct (map f xs) \<Longrightarrow> p \<in> set (map f xs) \<Longrightarrow> length (filter (\<lambda>x. f x = p) xs) = 1"
proof (induction xs)
  case Nil
  then show ?case by simp
next
  case (Cons x xs)
  show ?case
  proof (cases "f x = p")
    case True
    from Cons.prems(1) have "f x \<notin> f ` set xs" by simp
    then have "\<forall>y \<in> set xs. f y \<noteq> f x" by (metis imageI)
    with True have "filter (\<lambda>x. f x = p) xs = []"
      by (simp add: filter_empty_conv)
    with True show ?thesis by simp
  next
    case False
    with Cons show ?thesis by auto
  qed
qed

lemma registry_ok_one_entry:
  "registry_ok s \<Longrightarrow> p \<in> known_powers s
     \<Longrightarrow> length (filter (\<lambda>opp. opp_power opp = p) (opponents s)) = 1"
  using one_entry_per_power [of opp_power "opponents s" p] by (simp add: registry_ok_def)

lemma scan_step_registry_ok:
  assumes "registry_ok (the_scanner st)"
  shows "registry_ok (the_scanner (exit_state (scan_step e st)))"
proof -
  have r1: "registry_ok (scroll_list d s) = registry_ok s" for d s
    by (rule registry_ok_cong) (simp_all add: scan_facts)
  have r2: "registry_ok (snd (scan_visible_opponents e s b)) = registry_ok s" for s b
    by (rule registry_ok_cong) (simp_all add: scan_facts)
  have r3: "registry_ok (s\<lparr>scroll_count := k\<rparr>) = registry_ok s" for s k
    by (simp add: registry_ok_def)
  note r4 = add_opponents_with_dedup_registry_ok
  show ?thesis
  proof (cases rule: scan_step_cases [of e st])
    case (Empty s2)
    have "s2 = snd (scan_visible_opponents e (scroll_list Down (the_scanner st)) True)"
      using Empty(1) by simp
    with Empty(2) assms show ?thesis by (simp add: exit_state_def r1 r2)
  next
    case (End_of_list visible s2)
    have "s2 = snd (scan_visible_opponents e (scroll_list Down (the_scanner st)) True)"
      using End_of_list(1) by simp
    with End_of_list(5) assms show ?thesis by (simp add: exit_state_def r1 r2 r3)
  next
    case (New visible s2 added s3)
    have s2: "s2 = snd (scan_visible_opponents e (scroll_list Down (the_scanner st)) True)"
      and s3: "s3 = snd (add_opponents_with_dedup s2 visible)"
      using New(1,4) by simp_all
    from assms have "registry_ok s2" by (simp add: s2 r1 r2)
    then have "registry_ok s3" unfolding s3 by (rule r4)
    with New(6) show ?thesis by (simp add: exit_state_def)
  next
    case (Confirmed visible s2 s3 visible2 s5)
    have s2: "s2 = snd (scan_visible_opponents e (scroll_list Down (the_scanner st)) True)"
      and s3: "s3 = snd (add_opponents_with_dedup s2 visible)"
      and s5: "s5 = snd (scan_visible_opponents e (scroll_list Down s3) True)"
      using Confirmed(1,4,5) by simp_all
    from assms have "registry_ok s2" by (simp add: s2 r1 r2)
    then have "registry_ok s3" unfolding s3 by (rule r4)
    then have "registry_ok s5" by (simp add: s5 r1 r2)
    with Confirmed(7) show ?thesis by (simp add: exit_state_def r3)
  next
    case (Unconfirmed visible s2 s3 visible2 s5 added2 s7)
    have s2: "s2 = snd (scan_visible_opponents e (scroll_list Down (the_scanner st)) True)"
      and s3: "s3 = snd (add_opponents_with_dedup s2 visible)"
      and s5: "s5 = snd (scan_visible_opponents e (scroll_list Down s3) True)"
      and s7: "s7 = snd (add_opponents_with_dedup (s5\<lparr>scroll_count := scroll_count s5 - 1\<rparr>) visible2)"
      using Unconfirmed(1,4,5,7) by simp_all
    from assms have "registry_ok s2" by (simp add: s2 r1 r2)
    then have "registry_ok s3" unfolding s3 by (rule r4)
    then have "registry_ok (s5\<lparr>scroll_count := scroll_count s5 - 1\<rparr>)" by (simp add: s5 r1 r2 r3)
    then have "registry_ok s7" unfolding s7 by (rule r4)
    with Unconfirmed(8) show ?thesis by (simp add: exit_state_def)
  qed
qed

lemma scan_loop_registry_ok:
  assumes "registry_ok (the_scanner st)"
  shows "registry_ok (the_scanner (scan_loop e st))"
proof (rule scan_loop_rule [where I = "\<lambda>st::scan_state. registry_ok (the_scanner st)"])
  show "registry_ok (the_scanner st)" by (rule assms)
next
  fix st1 st2 :: scan_state
  assume "registry_ok (the_scanner st1)" and "scan_step e st1 = Continue st2"
  with scan_step_registry_ok [of st1 e] show "registry_ok (the_scanner st2)"
    by (simp add: exit_state_def)
next
  fix st1 st2 :: scan_state
  assume "registry_ok (the_scanner st1)" and "scan_step e st1 = Break st2"
  with scan_step_registry_ok [of st1 e] show "registry_ok (the_scanner st2)"
    by (simp add: exit_state_def)
next
  fix st1 :: scan_state
  assume "registry_ok (the_scanner st1)"
  then show "registry_ok (the_scanner st1)" .
qed

lemma run_full_scan_registry_ok: "registry_ok (snd (run_full_scan e s))"
proof -
  have "registry_ok (scanner_reset s)" by (simp add: registry_ok_def scan_facts)
  then have "registry_ok (snd (scan_visible_opponents e (scanner_reset s) False))"
    by (simp add: registry_ok_def scan_facts)
  then have "registry_ok (the_scanner (loop_start e s))"
    by (simp add: loop_start_def Let_def add_opponents_with_dedup_registry_ok)
  then have "registry_ok (the_scanner (scan_loop e (loop_start e s)))"
    by (rule scan_loop_registry_ok)
  then show ?thesis
    by (simp add: run_full_scan_unfold Let_def return_to_top_def registry_ok_def scan_facts)
qed

lemma run_full_scan_fst: "fst (run_full_scan e s) = opponents (snd (run_full_scan e s))"
  by (simp add: run_full_scan_unfold Let_def)

text \<open>
  Claim C3. The registry holds at most one reading per power: the invariant holds
  after \<open>reset\<close>, \<open>add_opponents_with_dedup\<close> keeps it and only appends readings of the
  new list whose power was not known, every step of the scan loop keeps it, and the
  registry that \<open>run_full_scan\<close> returns has pairwise distinct powers. Adding the same
  list again adds nothing, and after adding a reading twice the registry has exactly
  one entry of its power.
\<close>

theorem registry_one_reading_per_power:
  "(registry_ok s \<longrightarrow> registry_ok (snd (add_opponents_with_dedup s new_opponents)))
   \<and> (\<exists>appended. opponents (snd (add_opponents_with_dedup s new_opponents)) = opponents s @ appended
        \<and> set appended \<subseteq> set new_opponents
        \<and> (\<forall>opp \<in> set appended. opp_power opp \<notin> known_powers s))
   \<and> add_opponents_with_dedup (snd (add_opponents_with_dedup s new_opponents)) new_opponents
       = (0, snd (add_opponents_with_dedup s new_opponents))
   \<and> (registry_ok s \<longrightarrow>
        length (filter (\<lambda>opp. opp_power opp = opp_power r)
          (opponents (snd (add_opponents_with_dedup (snd (add_opponents_with_dedup s [r])) [r])))) = 1)
   \<and> registry_ok (scanner_reset s)
   \<and> (registry_ok (the_scanner st) \<longrightarrow> registry_ok (the_scanner (exit_state (scan_step e st))))
   \<and> registry_ok (snd (run_full_scan e s))
   \<and> distinct (map opp_power (fst (run_full_scan e s)))"
proof (intro conjI)
  show "registry_ok s \<longrightarrow> registry_ok (snd (add_opponents_with_dedup s new_opponents))"
    by (simp add: add_opponents_with_dedup_registry_ok)
  show "\<exists>appended. opponents (snd (add_opponents_with_dedup s new_opponents)) = opponents s @ appended
        \<and> set appended \<subseteq> set new_opponents
        \<and> (\<forall>opp \<in> set appended. opp_power opp \<notin> known_powers s)"
    using add_opponents_with_dedup_appends [of s new_opponents] by blast
  show "add_opponents_with_dedup (snd (add_opponents_with_dedup s new_opponents)) new_opponents
       = (0, snd (add_opponents_with_dedup s new_opponents))"
    by (rule add_opponents_with_dedup_twice)
  show "registry_ok s \<longrightarrow>
        length (filter (\<lambda>opp. opp_power opp = opp_power r)
          (opponents (snd (add_opponents_with_dedup (snd (add_opponents_with_dedup s [r])) [r])))) = 1"
  proof
    assume "registry_ok s"
    then have "registry_ok (snd (add_opponents_with_dedup s [r]))"
      by (rule add_opponents_with_dedup_registry_ok)
    moreover have "opp_power r \<in> known_powers (snd (add_opponents_with_dedup s [r]))"
      by (simp add: add_opponents_with_dedup_known_powers)
    ultimately show "length (filter (\<lambda>opp. opp_power opp = opp_power r)
          (opponents (snd (add_opponents_with_dedup (snd (add_opponents_with_dedup s [r])) [r])))) = 1"
      by (simp add: add_opponents_with_dedup_twice registry_ok_one_entry)
  qed
  show "registry_ok (scanner_reset s)" by (simp add: registry_ok_def scan_facts)
  show "registry_ok (the_scanner st) \<longrightarrow> registry_ok (the_scanner (exit_state (scan_step e st)))"
    by (simp add: scan_step_registry_ok)
  show "registry_ok (snd (run_full_scan e s))" by (rule run_full_scan_registry_ok)
  show "distinct (map opp_power (fst (run_full_scan e s)))"
    using run_full_scan_registry_ok [of e s] by (simp add: run_full_scan_fst registry_ok_def)
qed

theorem registry_one_reading_per_power_witness:
  "registry_ok scanner_init
   \<and> registry_ok (snd (add_opponents_with_dedup scanner_init [reading 3000 True, reading 3000 False]))
   \<and> length (filter (\<lambda>opp. opp_power opp = opp_power (reading 3000 True))
        (opponents (snd (add_opponents_with_dedup
           (snd (add_opponents_with_dedup scanner_init [reading 3000 True])) [reading 3000 True])))) = 1
   \<and> opponents (snd (add_opponents_with_dedup scanner_init [reading 3000 True, reading 3000 False]))
       = [reading 3000 True]
   \<and> registry_ok (the_scanner (exit_state (scan_step env_blank (loop_start env_blank scanner_init))))"
proof -
  have ok: "registry_ok scanner_init" by (simp add: registry_ok_def scanner_init_def)
  have ok2: "registry_ok (the_scanner (loop_start env_blank scanner_init))"
    unfolding loop_start_blank by (simp add: registry_ok_def scanner_init_def)
  note t = registry_one_reading_per_power [of scanner_init "[reading 3000 True, reading 3000 False]"
      "reading 3000 True" "loop_start env_blank scanner_init" env_blank]
  from t ok have 1: "registry_ok (snd (add_opponents_with_dedup scanner_init
      [reading 3000 True, reading 3000 False]))" by blast
  from t ok have 2: "length (filter (\<lambda>opp. opp_power opp = opp_power (reading 3000 True))
        (opponents (snd (add_opponents_with_dedup
           (snd (add_opponents_with_dedup scanner_init [reading 3000 True])) [reading 3000 True])))) = 1"
    by blast
  from t ok2 have 3: "registry_ok (the_scanner (exit_state
      (scan_step env_blank (loop_start env_blank scanner_init))))" by blast
  have 4: "opponents (snd (add_opponents_with_dedup scanner_init [reading 3000 True, reading 3000 False]))
       = [reading 3000 True]"
    by (simp add: add_opponents_with_dedup_def scanner_init_def reading_def)
  from ok 1 2 3 4 show ?thesis by simp
qed

subsection \<open>End-of-list detection\<close>

lemma map_snd_enumerate_fun: "map (\<lambda>x. f (snd x)) (enumerate n xs) = map f xs"
  by (induction xs arbitrary: n) simp_all

lemma scan_visible_opponents_powers:
  "map opp_power (fst (scan_visible_opponents e s b))
     = map tp_power (find_all_team_powers (cap_tokens (frames e (captures (window_capture s))) b)
                       (cap_matches (frames e (captures (window_capture s))) b))"
  by (simp add: scan_visible_opponents_def capture_frame_def Let_def case_prod_beta comp_def
      map_snd_enumerate_fun)

lemma scan_band_powers:
  "set (map opp_power (fst (scan_visible_opponents e s True)))
     = band_powers e (captures (window_capture s))"
  by (simp only: scan_visible_opponents_powers band_powers_def)

lemma scan_band_empty:
  "fst (scan_visible_opponents e s True) = [] \<longleftrightarrow> band_powers e (captures (window_capture s)) = {}"
  using scan_band_powers [of e s] by auto

lemma dedup_loop_count_mono: "n \<le> snd (dedup_loop xs s n)"
  using dedup_loop_appends [of xs s n] by auto

lemma dedup_loop_none_added:
  "snd (dedup_loop xs s n) = n \<Longrightarrow> set (map opp_power xs) \<subseteq> known_powers s"
proof (induction xs s n rule: dedup_loop.induct)
  case (1 s added_count)
  then show ?case by simp
next
  case (2 opp rest s added_count)
  show ?case
  proof (cases "opp_power opp \<in> known_powers s")
    case True
    with 2 show ?thesis by simp
  next
    case False
    with "2.prems" dedup_loop_count_mono [of "added_count + 1" rest
        "s\<lparr>known_powers := insert (opp_power opp) (known_powers s),
           opponents := opponents s @ [opp]\<rparr>"]
    show ?thesis by simp
  qed
qed

lemma add_opponents_with_dedup_none_added:
  "fst (add_opponents_with_dedup s xs) = 0 \<longleftrightarrow> set (map opp_power xs) \<subseteq> known_powers s"
proof
  assume "set (map opp_power xs) \<subseteq> known_powers s"
  then show "fst (add_opponents_with_dedup s xs) = 0"
    by (simp add: add_opponents_with_dedup_all_known)
next
  assume zero: "fst (add_opponents_with_dedup s xs) = 0"
  then have "snd (dedup_loop xs s 0) = 0"
    by (cases "dedup_loop xs s 0") (simp add: add_opponents_with_dedup_def)
  then show "set (map opp_power xs) \<subseteq> known_powers s"
    by (rule dedup_loop_none_added)
qed

text \<open>
  The loop body in terms of the feed: \<open>A\<close> is the power set of the bottom band that the
  next capture shows, \<open>B\<close> that of the capture after it.
\<close>

lemma scan_step_band_cases [case_names Empty End_of_list New Confirmed Unconfirmed]:
  fixes e st
  defines "c \<equiv> captures (window_capture (the_scanner st))"
  defines "A \<equiv> band_powers e (captures (window_capture (the_scanner st)))"
  defines "B \<equiv> band_powers e (Suc (captures (window_capture (the_scanner st))))"
  obtains
    (Empty) st' where "A = {}" "scan_step e st = Continue st'"
      "captures (window_capture (the_scanner st')) = c + 1"
      "scroll_count (the_scanner st') = scroll_count (the_scanner st) + 1"
      "last_bottom_powers st' = last_bottom_powers st"
  | (End_of_list) st' where "A \<noteq> {}" "last_bottom_powers st \<noteq> {}" "A = last_bottom_powers st"
      "scan_step e st = Break st'"
      "captures (window_capture (the_scanner st')) = c + 1"
      "scroll_count (the_scanner st') = scroll_count (the_scanner st) + 1 - 1"
  | (New) st' where "A \<noteq> {}" "\<not> (last_bottom_powers st \<noteq> {} \<and> A = last_bottom_powers st)"
      "\<not> A \<subseteq> known_powers (the_scanner st)"
      "scan_step e st = Continue st'"
      "captures (window_capture (the_scanner st')) = c + 1"
      "scroll_count (the_scanner st') = scroll_count (the_scanner st) + 1"
      "last_bottom_powers st' = A"
  | (Confirmed) st' where "A \<noteq> {}" "\<not> (last_bottom_powers st \<noteq> {} \<and> A = last_bottom_powers st)"
      "A \<subseteq> known_powers (the_scanner st)" "B = A"
      "scan_step e st = Break st'"
      "captures (window_capture (the_scanner st')) = c + 2"
      "scroll_count (the_scanner st') = scroll_count (the_scanner st) + 2 - 2"
  | (Unconfirmed) st' where "A \<noteq> {}" "\<not> (last_bottom_powers st \<noteq> {} \<and> A = last_bottom_powers st)"
      "A \<subseteq> known_powers (the_scanner st)" "B \<noteq> A"
      "scan_step e st = Continue st'"
      "captures (window_capture (the_scanner st')) = c + 2"
      "scroll_count (the_scanner st') = scroll_count (the_scanner st) + 1"
      "last_bottom_powers st' = B"
proof (cases rule: scan_step_cases [of e st])
  case (Empty s2)
  have s2: "s2 = snd (scan_visible_opponents e (scroll_list Down (the_scanner st)) True)"
    using Empty(1) by simp
  have "A = {}"
    using Empty(1) scan_band_empty [of e "scroll_list Down (the_scanner st)"]
    by (simp add: A_def scan_facts)
  then show ?thesis
    using Empty(2) by (rule that(1)) (simp_all add: s2 c_def scan_facts)
next
  case (End_of_list visible s2)
  have s2: "s2 = snd (scan_visible_opponents e (scroll_list Down (the_scanner st)) True)"
    using End_of_list(1) by simp
  have vis: "set (map opp_power visible) = A"
    using End_of_list(1) scan_band_powers [of e "scroll_list Down (the_scanner st)"]
    by (simp add: A_def scan_facts)
  have 1: "A \<noteq> {}" using vis End_of_list(2) by auto
  have 2: "A = last_bottom_powers st" using vis End_of_list(4) by simp
  show ?thesis
    using 1 End_of_list(3) 2 End_of_list(5) by (rule that(2)) (simp_all add: s2 c_def scan_facts)
next
  case (New visible s2 added s3)
  have s2: "s2 = snd (scan_visible_opponents e (scroll_list Down (the_scanner st)) True)"
    and s3: "s3 = snd (add_opponents_with_dedup s2 visible)"
    using New(1,4) by simp_all
  have vis: "set (map opp_power visible) = A"
    using New(1) scan_band_powers [of e "scroll_list Down (the_scanner st)"]
    by (simp add: A_def scan_facts)
  have 1: "A \<noteq> {}" using vis New(2) by auto
  have 2: "\<not> (last_bottom_powers st \<noteq> {} \<and> A = last_bottom_powers st)"
    using vis New(3) by simp
  have "fst (add_opponents_with_dedup s2 visible) \<noteq> 0" using New(4,5) by simp
  then have 3: "\<not> A \<subseteq> known_powers (the_scanner st)"
    using vis by (simp add: add_opponents_with_dedup_none_added s2 scan_facts)
  show ?thesis
    using 1 2 3 New(6) by (rule that(3)) (simp_all add: s2 s3 c_def vis [simplified] scan_facts)
next
  case (Confirmed visible s2 s3 visible2 s5)
  have s2: "s2 = snd (scan_visible_opponents e (scroll_list Down (the_scanner st)) True)"
    and s3: "s3 = snd (add_opponents_with_dedup s2 visible)"
    and s5: "s5 = snd (scan_visible_opponents e (scroll_list Down s3) True)"
    using Confirmed(1,4,5) by simp_all
  have vis: "set (map opp_power visible) = A"
    using Confirmed(1) scan_band_powers [of e "scroll_list Down (the_scanner st)"]
    by (simp add: A_def scan_facts)
  have vis2: "set (map opp_power visible2) = B"
    using Confirmed(5) scan_band_powers [of e "scroll_list Down s3"]
    by (simp add: B_def s3 s2 scan_facts)
  have 1: "A \<noteq> {}" using vis Confirmed(2) by auto
  have 2: "\<not> (last_bottom_powers st \<noteq> {} \<and> A = last_bottom_powers st)"
    using vis Confirmed(3) by simp
  have "fst (add_opponents_with_dedup s2 visible) = 0" using Confirmed(4) by simp
  then have 3: "A \<subseteq> known_powers (the_scanner st)"
    using vis by (simp add: add_opponents_with_dedup_none_added s2 scan_facts)
  have 4: "B = A" using vis vis2 Confirmed(6) by simp
  show ?thesis
    using 1 2 3 4 Confirmed(7) by (rule that(4)) (simp_all add: s2 s3 s5 c_def scan_facts)
next
  case (Unconfirmed visible s2 s3 visible2 s5 added2 s7)
  have s2: "s2 = snd (scan_visible_opponents e (scroll_list Down (the_scanner st)) True)"
    and s3: "s3 = snd (add_opponents_with_dedup s2 visible)"
    and s5: "s5 = snd (scan_visible_opponents e (scroll_list Down s3) True)"
    and s7: "s7 = snd (add_opponents_with_dedup (s5\<lparr>scroll_count := scroll_count s5 - 1\<rparr>) visible2)"
    using Unconfirmed(1,4,5,7) by simp_all
  have vis: "set (map opp_power visible) = A"
    using Unconfirmed(1) scan_band_powers [of e "scroll_list Down (the_scanner st)"]
    by (simp add: A_def scan_facts)
  have vis2: "set (map opp_power visible2) = B"
    using Unconfirmed(5) scan_band_powers [of e "scroll_list Down s3"]
    by (simp add: B_def s3 s2 scan_facts)
  have 1: "A \<noteq> {}" using vis Unconfirmed(2) by auto
  have 2: "\<not> (last_bottom_powers st \<noteq> {} \<and> A = last_bottom_powers st)"
    using vis Unconfirmed(3) by simp
  have "fst (add_opponents_with_dedup s2 visible) = 0" using Unconfirmed(4) by simp
  then have 3: "A \<subseteq> known_powers (the_scanner st)"
    using vis by (simp add: add_opponents_with_dedup_none_added s2 scan_facts)
  have 4: "B \<noteq> A" using vis vis2 Unconfirmed(6) by simp
  show ?thesis
    using 1 2 3 4 Unconfirmed(8)
    by (rule that(5)) (simp_all add: s2 s3 s5 s7 c_def vis2 [simplified] scan_facts)
qed


lemma scan_loop_repeat:
  assumes rep: "band_powers e (c0 + N + 1) = band_powers e (c0 + N)"
    and ne: "band_powers e (c0 + N) \<noteq> {}"
    and N: "1 \<le> N"
    and start: "captures (window_capture (the_scanner st)) = c0 + 1"
      "scroll_count (the_scanner st) = 0"
  shows "captures (window_capture (the_scanner (scan_loop e st))) \<le> c0 + 1 + (N + 1)
       \<and> scroll_count (the_scanner (scan_loop e st)) \<le> int N"
proof -
  define I where "I = (\<lambda>st'::scan_state. \<exists>n \<le> N.
      captures (window_capture (the_scanner st')) = c0 + 1 + n
    \<and> scroll_count (the_scanner st') \<le> int n
    \<and> (n = 0 \<or> band_powers e (c0 + n) = {} \<or> last_bottom_powers st' = band_powers e (c0 + n)))"
  define Q where "Q = (\<lambda>st'::scan_state.
      captures (window_capture (the_scanner st')) \<le> c0 + 1 + (N + 1)
    \<and> scroll_count (the_scanner st') \<le> int N)"
  have step: "(\<forall>st2. scan_step e st1 = Continue st2 \<longrightarrow> I st2)
            \<and> (\<forall>st2. scan_step e st1 = Break st2 \<longrightarrow> Q st2)" if i: "I st1" for st1
  proof -
    from i obtain n where n: "n \<le> N"
        "captures (window_capture (the_scanner st1)) = c0 + 1 + n"
        "scroll_count (the_scanner st1) \<le> int n"
        "n = 0 \<or> band_powers e (c0 + n) = {} \<or> last_bottom_powers st1 = band_powers e (c0 + n)"
      by (auto simp: I_def)
    have lastN: "last_bottom_powers st1 = band_powers e (c0 + N)" if "n = N"
      using that n(4) N ne by auto
    show ?thesis
    proof (cases rule: scan_step_band_cases [of e st1])
      case (Empty st')
      have "n \<noteq> N"
      proof
        assume "n = N"
        then have i1: "captures (window_capture (the_scanner st1)) = c0 + N + 1"
          using n(2) by simp
        from Empty(1) rep ne show False unfolding i1 by simp
      qed
      with n(1) have "n + 1 \<le> N" by simp
      moreover have "captures (window_capture (the_scanner st')) = c0 + 1 + (n + 1)"
        using Empty(3) n(2) by simp
      moreover have "scroll_count (the_scanner st') \<le> int (n + 1)"
        using Empty(4) n(3) by simp
      moreover have "band_powers e (c0 + (n + 1)) = {}"
      proof -
        have "captures (window_capture (the_scanner st1)) = c0 + (n + 1)" using n(2) by simp
        with Empty(1) show ?thesis by simp
      qed
      ultimately have "I st'" unfolding I_def by blast
      with Empty(2) show ?thesis by simp
    next
      case (End_of_list st')
      have "captures (window_capture (the_scanner st')) \<le> c0 + 1 + (N + 1)"
        using End_of_list(5) n(1,2) by simp
      moreover have "scroll_count (the_scanner st') \<le> int N"
        using End_of_list(6) n(1,3) by simp
      ultimately have "Q st'" by (simp add: Q_def)
      with End_of_list(4) show ?thesis by simp
    next
      case (New st')
      have "n \<noteq> N"
      proof
        assume eq: "n = N"
        then have i1: "captures (window_capture (the_scanner st1)) = c0 + N + 1"
          using n(2) by simp
        have "band_powers e (captures (window_capture (the_scanner st1)))
                     = band_powers e (c0 + N)"
          unfolding i1 by (rule rep)
        with lastN [OF eq] ne New(2) show False by simp
      qed
      with n(1) have "n + 1 \<le> N" by simp
      moreover have "captures (window_capture (the_scanner st')) = c0 + 1 + (n + 1)"
        using New(5) n(2) by simp
      moreover have "scroll_count (the_scanner st') \<le> int (n + 1)"
        using New(6) n(3) by simp
      moreover have "last_bottom_powers st' = band_powers e (c0 + (n + 1))"
      proof -
        have "captures (window_capture (the_scanner st1)) = c0 + (n + 1)" using n(2) by simp
        with New(7) show ?thesis by simp
      qed
      ultimately have "I st'" unfolding I_def by blast
      with New(4) show ?thesis by simp
    next
      case (Confirmed st')
      have "n \<noteq> N"
      proof
        assume eq: "n = N"
        then have i1: "captures (window_capture (the_scanner st1)) = c0 + N + 1"
          using n(2) by simp
        have "band_powers e (captures (window_capture (the_scanner st1)))
                     = band_powers e (c0 + N)"
          unfolding i1 by (rule rep)
        with lastN [OF eq] ne Confirmed(2) show False by simp
      qed
      with n(1) have lt: "n + 1 \<le> N" by simp
      have "captures (window_capture (the_scanner st')) \<le> c0 + 1 + (N + 1)"
        using Confirmed(6) n(2) lt by simp
      moreover have "scroll_count (the_scanner st') \<le> int N"
        using Confirmed(7) n(1,3) by simp
      ultimately have "Q st'" by (simp add: Q_def)
      with Confirmed(5) show ?thesis by simp
    next
      case (Unconfirmed st')
      have "n \<noteq> N"
      proof
        assume eq: "n = N"
        then have i1: "captures (window_capture (the_scanner st1)) = c0 + N + 1"
          using n(2) by simp
        have "band_powers e (captures (window_capture (the_scanner st1)))
                     = band_powers e (c0 + N)"
          unfolding i1 by (rule rep)
        with lastN [OF eq] ne Unconfirmed(2) show False by simp
      qed
      with n(1) have lt: "n + 1 \<le> N" by simp
      have "n + 1 \<noteq> N"
      proof
        assume eq: "n + 1 = N"
        have i1: "captures (window_capture (the_scanner st1)) = c0 + N"
          and i2: "Suc (captures (window_capture (the_scanner st1))) = c0 + N + 1"
          using n(2) eq by simp_all
        show False using Unconfirmed(4) rep unfolding i1 i2 by simp
      qed
      with lt have "n + 2 \<le> N" by simp
      moreover have "captures (window_capture (the_scanner st')) = c0 + 1 + (n + 2)"
        using Unconfirmed(6) n(2) by simp
      moreover have "scroll_count (the_scanner st') \<le> int (n + 2)"
        using Unconfirmed(7) n(3) by simp
      moreover have "last_bottom_powers st' = band_powers e (c0 + (n + 2))"
      proof -
        have "Suc (captures (window_capture (the_scanner st1))) = c0 + (n + 2)" using n(2) by simp
        with Unconfirmed(8) show ?thesis by simp
      qed
      ultimately have "I st'" unfolding I_def by blast
      with Unconfirmed(5) show ?thesis by simp
    qed
  qed
  have "Q (scan_loop e st)"
  proof (rule scan_loop_rule [where I = I and Q = Q])
    show "I st" unfolding I_def using start by (intro exI [of _ 0]) simp
  next
    fix st1 st2 assume "I st1" "scan_step e st1 = Continue st2"
    with step show "I st2" by blast
  next
    fix st1 st2 assume "I st1" "scan_step e st1 = Break st2"
    with step show "Q st2" by blast
  next
    fix st1 assume "I st1"
    then show "Q st1" by (auto simp: I_def Q_def)
  qed
  then show ?thesis by (simp add: Q_def)
qed


lemma scroll_up_funpow_max_scroll_reached [scan_facts]:
  "max_scroll_reached (((scroll_list Up) ^^ n) s) = max_scroll_reached s"
  by (induction n) (simp_all add: scroll_list_def issue_def Let_def)

lemma run_full_scan_max_scroll_reached:
  "max_scroll_reached (snd (run_full_scan e s))
     = max 0 (scroll_count (the_scanner (scan_loop e (loop_start e s))))"
  by (simp add: run_full_scan_unfold Let_def return_to_top_def scan_facts)

lemma run_full_scan_repeat:
  assumes "1 \<le> N"
    and "band_powers e (captures (window_capture s) + N) \<noteq> {}"
    and "band_powers e (captures (window_capture s) + N + 1)
           = band_powers e (captures (window_capture s) + N)"
  shows "(\<exists>steps \<le> N + 1.
            captures (window_capture (snd (run_full_scan e s)))
              = captures (window_capture s) + 1 + steps
          \<and> actions (window_capture (snd (run_full_scan e s)))
              = actions (window_capture s) @ replicate steps (Drag Down) @ replicate 6 (Drag Up))
       \<and> max_scroll_reached (snd (run_full_scan e s)) \<le> int N"
proof -
  have start: "captures (window_capture (the_scanner (loop_start e s))) = captures (window_capture s) + 1"
    "scroll_count (the_scanner (loop_start e s)) = 0"
    by (simp_all add: loop_start_fields)
  note loop = scan_loop_repeat [OF assms(3,2,1) start]
  from run_full_scan_world [of e s] obtain downs where d: "downs \<le> 12"
      "captures (window_capture (snd (run_full_scan e s))) = captures (window_capture s) + 1 + downs"
      "actions (window_capture (snd (run_full_scan e s)))
        = actions (window_capture s) @ replicate downs (Drag Down) @ replicate 6 (Drag Up)"
    by blast
  have "captures (window_capture (snd (run_full_scan e s)))
          = captures (window_capture (the_scanner (scan_loop e (loop_start e s))))"
    by (simp add: run_full_scan_unfold Let_def return_to_top_def scan_facts)
  with loop d(2) have "downs \<le> N + 1" by simp
  with d(2,3) have "\<exists>steps \<le> N + 1.
            captures (window_capture (snd (run_full_scan e s)))
              = captures (window_capture s) + 1 + steps
          \<and> actions (window_capture (snd (run_full_scan e s)))
              = actions (window_capture s) @ replicate steps (Drag Down) @ replicate 6 (Drag Up)"
    by blast
  moreover have "max_scroll_reached (snd (run_full_scan e s)) \<le> int N"
    using loop by (simp add: run_full_scan_max_scroll_reached)
  ultimately show ?thesis by simp
qed

text \<open>
  Claim C4. A bottom-band scan with a non-empty power set equal to the previous one
  stops the loop with the tracked index rolled back by one, so back at the index before
  the step; when a band brings nothing new and the confirmation band repeats it, the
  loop stops with the index rolled back by two. \<open>max_scroll_reached\<close> is the index the
  loop ends with, so the step that showed the duplicate is not counted. If the band of
  scroll step N + 1 repeats the non-empty band of step N, the scan takes at most N + 1
  scroll steps and \<open>max_scroll_reached\<close> is below N + 1.
\<close>

theorem run_full_scan_end_of_list:
  "(band_powers e (captures (window_capture (the_scanner st))) \<noteq> {}
      \<and> band_powers e (captures (window_capture (the_scanner st))) = last_bottom_powers st
     \<longrightarrow> (\<exists>st'. scan_step e st = Break st'
           \<and> scroll_count (the_scanner st') = scroll_count (the_scanner st) + 1 - 1
           \<and> captures (window_capture (the_scanner st'))
               = captures (window_capture (the_scanner st)) + 1))
   \<and> (band_powers e (captures (window_capture (the_scanner st))) \<noteq> {}
      \<and> band_powers e (captures (window_capture (the_scanner st))) \<noteq> last_bottom_powers st
      \<and> band_powers e (captures (window_capture (the_scanner st))) \<subseteq> known_powers (the_scanner st)
      \<and> band_powers e (Suc (captures (window_capture (the_scanner st))))
          = band_powers e (captures (window_capture (the_scanner st)))
     \<longrightarrow> (\<exists>st'. scan_step e st = Break st'
           \<and> scroll_count (the_scanner st') = scroll_count (the_scanner st) + 2 - 2
           \<and> captures (window_capture (the_scanner st'))
               = captures (window_capture (the_scanner st)) + 2))
   \<and> max_scroll_reached (snd (run_full_scan e s))
       = max 0 (scroll_count (the_scanner (scan_loop e (loop_start e s))))
   \<and> (1 \<le> N \<and> band_powers e (captures (window_capture s) + N) \<noteq> {}
      \<and> band_powers e (captures (window_capture s) + N + 1)
          = band_powers e (captures (window_capture s) + N)
     \<longrightarrow> (\<exists>steps \<le> N + 1.
            captures (window_capture (snd (run_full_scan e s)))
              = captures (window_capture s) + 1 + steps
          \<and> actions (window_capture (snd (run_full_scan e s)))
              = actions (window_capture s) @ replicate steps (Drag Down) @ replicate 6 (Drag Up))
       \<and> max_scroll_reached (snd (run_full_scan e s)) < int (N + 1))"
proof (intro conjI impI)
  assume h: "band_powers e (captures (window_capture (the_scanner st))) \<noteq> {}
      \<and> band_powers e (captures (window_capture (the_scanner st))) = last_bottom_powers st"
  show "\<exists>st'. scan_step e st = Break st'
           \<and> scroll_count (the_scanner st') = scroll_count (the_scanner st) + 1 - 1
           \<and> captures (window_capture (the_scanner st'))
               = captures (window_capture (the_scanner st)) + 1"
    using h by (cases rule: scan_step_band_cases [of e st]) auto
next
  assume h: "band_powers e (captures (window_capture (the_scanner st))) \<noteq> {}
      \<and> band_powers e (captures (window_capture (the_scanner st))) \<noteq> last_bottom_powers st
      \<and> band_powers e (captures (window_capture (the_scanner st))) \<subseteq> known_powers (the_scanner st)
      \<and> band_powers e (Suc (captures (window_capture (the_scanner st))))
          = band_powers e (captures (window_capture (the_scanner st)))"
  show "\<exists>st'. scan_step e st = Break st'
           \<and> scroll_count (the_scanner st') = scroll_count (the_scanner st) + 2 - 2
           \<and> captures (window_capture (the_scanner st'))
               = captures (window_capture (the_scanner st)) + 2"
    using h by (cases rule: scan_step_band_cases [of e st]) auto
next
  show "max_scroll_reached (snd (run_full_scan e s))
       = max 0 (scroll_count (the_scanner (scan_loop e (loop_start e s))))"
    by (rule run_full_scan_max_scroll_reached)
next
  assume h: "1 \<le> N \<and> band_powers e (captures (window_capture s) + N) \<noteq> {}
      \<and> band_powers e (captures (window_capture s) + N + 1)
          = band_powers e (captures (window_capture s) + N)"
  then show "\<exists>steps \<le> N + 1.
            captures (window_capture (snd (run_full_scan e s)))
              = captures (window_capture s) + 1 + steps
          \<and> actions (window_capture (snd (run_full_scan e s)))
              = actions (window_capture s) @ replicate steps (Drag Down) @ replicate 6 (Drag Up)"
    using run_full_scan_repeat [of N e s] by blast
next
  assume h: "1 \<le> N \<and> band_powers e (captures (window_capture s) + N) \<noteq> {}
      \<and> band_powers e (captures (window_capture s) + N + 1)
          = band_powers e (captures (window_capture s) + N)"
  then have "max_scroll_reached (snd (run_full_scan e s)) \<le> int N"
    using run_full_scan_repeat [of N e s] by blast
  then show "max_scroll_reached (snd (run_full_scan e s)) < int (N + 1)" by simp
qed

lemma band_powers_repeat:
  "band_powers env_repeat 2 = {9000}" "band_powers env_repeat 3 = {9000}"
  by (simp_all add: band_powers_def env_repeat_def env_of_def capture_of_def power_match_def
      find_all_team_powers_def primary_step_def strip_separators_def py_int_def
      is_space_def is_digit_def digits_value_def Let_def)

theorem run_full_scan_end_of_list_witness:
  "(\<exists>st'. scan_step env_repeat state_after_repeat = Break st'
         \<and> scroll_count (the_scanner st') = 2
         \<and> captures (window_capture (the_scanner st')) = 4)
   \<and> (\<exists>st'. scan_step env_repeat state_all_known = Break st'
         \<and> scroll_count (the_scanner st') = 1
         \<and> captures (window_capture (the_scanner st')) = 4)
   \<and> (\<exists>steps \<le> 3.
          captures (window_capture (snd (run_full_scan env_repeat scanner_init))) = 1 + steps
        \<and> actions (window_capture (snd (run_full_scan env_repeat scanner_init)))
            = replicate steps (Drag Down) @ replicate 6 (Drag Up))
   \<and> max_scroll_reached (snd (run_full_scan env_repeat scanner_init)) < 3"
proof -
  note t = run_full_scan_end_of_list [of env_repeat state_after_repeat scanner_init 2]
  note u = run_full_scan_end_of_list [of env_repeat state_all_known scanner_init 2]
  have f1: "captures (window_capture (the_scanner state_after_repeat)) = 3"
    "last_bottom_powers state_after_repeat = {9000}"
    "scroll_count (the_scanner state_after_repeat) = 2"
    by (simp_all add: state_after_repeat_def)
  have f2: "captures (window_capture (the_scanner state_all_known)) = 2"
    "last_bottom_powers state_all_known = {8000}"
    "scroll_count (the_scanner state_all_known) = 1"
    "known_powers (the_scanner state_all_known) = {5000, 3000, 8000, 9000}"
    by (simp_all add: state_all_known_def)
  have f3: "captures (window_capture scanner_init) = 0" "actions (window_capture scanner_init) = []"
    by (simp_all add: scanner_init_def world_init_def)
  have h1: "band_powers env_repeat (captures (window_capture (the_scanner state_after_repeat))) \<noteq> {}
      \<and> band_powers env_repeat (captures (window_capture (the_scanner state_after_repeat)))
          = last_bottom_powers state_after_repeat"
    by (simp add: f1 band_powers_repeat)
  have h2: "band_powers env_repeat (captures (window_capture (the_scanner state_all_known))) \<noteq> {}
      \<and> band_powers env_repeat (captures (window_capture (the_scanner state_all_known)))
           \<noteq> last_bottom_powers state_all_known
      \<and> band_powers env_repeat (captures (window_capture (the_scanner state_all_known)))
           \<subseteq> known_powers (the_scanner state_all_known)
      \<and> band_powers env_repeat (Suc (captures (window_capture (the_scanner state_all_known))))
          = band_powers env_repeat (captures (window_capture (the_scanner state_all_known)))"
    by (simp add: f2 band_powers_repeat)
  have h3: "1 \<le> (2::nat) \<and> band_powers env_repeat (captures (window_capture scanner_init) + 2) \<noteq> {}
      \<and> band_powers env_repeat (captures (window_capture scanner_init) + 2 + 1)
          = band_powers env_repeat (captures (window_capture scanner_init) + 2)"
    by (simp add: f3 band_powers_repeat [unfolded numeral_2_eq_2 numeral_3_eq_3])
  from t h1 have 1: "\<exists>st'. scan_step env_repeat state_after_repeat = Break st'
         \<and> scroll_count (the_scanner st') = scroll_count (the_scanner state_after_repeat) + 1 - 1
         \<and> captures (window_capture (the_scanner st'))
             = captures (window_capture (the_scanner state_after_repeat)) + 1"
    by blast
  from u h2 have 2: "\<exists>st'. scan_step env_repeat state_all_known = Break st'
         \<and> scroll_count (the_scanner st') = scroll_count (the_scanner state_all_known) + 2 - 2
         \<and> captures (window_capture (the_scanner st'))
             = captures (window_capture (the_scanner state_all_known)) + 2"
    by blast
  from t h3 have 3: "(\<exists>steps \<le> 2 + 1.
            captures (window_capture (snd (run_full_scan env_repeat scanner_init)))
              = captures (window_capture scanner_init) + 1 + steps
          \<and> actions (window_capture (snd (run_full_scan env_repeat scanner_init)))
              = actions (window_capture scanner_init) @ replicate steps (Drag Down)
                  @ replicate 6 (Drag Up))
       \<and> max_scroll_reached (snd (run_full_scan env_repeat scanner_init)) < int (2 + 1)"
    by blast
  from 1 2 3 show ?thesis by (simp add: f1 f2 f3)
qed

end
